theory Spec2Isabelle
  imports Main
begin

section \<open>The markdown formatter of \<^verbatim>\<open>fix_markdown.py\<close>\<close>

text \<open>
  A shallow embedding of \<^verbatim>\<open>fix_markdown_formatting\<close> and of the script's entry point.
  A Python string is modelled as a \<^typ>\<open>string\<close>; each \<^typ>\<open>char\<close> stands for the code
  point of the same number, so the documents of the model are the ones whose code points
  are below 256. A document is split into lines at the newline character, the first pass
  walks the lines with the index \<open>i\<close> and builds \<open>fixed_lines\<close>, the second pass drops
  every blank line that follows a blank line.
\<close>

subsection \<open>Characters and patterns\<close>

text \<open>
  \<^verbatim>\<open>str.strip()\<close> and the class \<^verbatim>\<open>\s\<close> of \<^verbatim>\<open>re\<close> use the same test on a code point
  (\<^verbatim>\<open>str.isspace\<close>). Below 256 it holds of: tab, line feed, vertical tab, form feed,
  carriage return, the separators 0x1C to 0x1F, the space, NEL (0x85) and the no-break
  space (0xA0).
\<close>

definition isspace :: "char \<Rightarrow> bool" where
  "isspace c = (c \<in> set [CHR 0x09, CHR 0x0A, CHR 0x0B, CHR 0x0C, CHR 0x0D,
                         CHR 0x1C, CHR 0x1D, CHR 0x1E, CHR 0x1F, CHR 0x20,
                         CHR 0x85, CHR 0xA0])"

text \<open>\<^verbatim>\<open>line.strip()\<close>: the line without its leading and trailing whitespace.\<close>

definition strip :: "string \<Rightarrow> string" where
  "strip s = rev (dropWhile isspace (rev (dropWhile isspace s)))"

text \<open>\<^verbatim>\<open>re.match(r'^#{1,6}\s', line)\<close>: between one and six \<open>#\<close>, then a whitespace character.\<close>

definition is_heading :: "string \<Rightarrow> bool" where
  "is_heading line =
     list_ex (\<lambda>k. k < length line \<and> take k line = replicate k CHR ''#'' \<and> isspace (line ! k))
       [1..<7]"

text \<open>\<^verbatim>\<open>re.match(r'^```', line)\<close>: the line starts with three backticks.\<close>

definition is_fence :: "string \<Rightarrow> bool" where
  "is_fence line = (take 3 line = ''```'')"

text \<open>\<^verbatim>\<open>re.match(r'^```\s*$', line)\<close>: three backticks, then only whitespace up to the end.\<close>

definition is_closing_fence :: "string \<Rightarrow> bool" where
  "is_closing_fence line = (take 3 line = ''```'' \<and> list_all isspace (drop 3 line))"

text \<open>\<^verbatim>\<open>re.match(r'^- ', line)\<close> and \<^verbatim>\<open>re.match(r'^  ', line)\<close>.\<close>

definition is_list_item :: "string \<Rightarrow> bool" where
  "is_list_item line = (take 2 line = ''- '')"

definition is_continuation :: "string \<Rightarrow> bool" where
  "is_continuation line = (take 2 line = ''  '')"

text \<open>
  \<^verbatim>\<open>re.sub(r':$', '', line)\<close> on a line, which holds no newline: there \<^verbatim>\<open>$\<close> matches at
  the end only, so the one match, if any, is a colon that is the last character.
\<close>

definition strip_colon :: "string \<Rightarrow> string" where
  "strip_colon line = (if line \<noteq> [] \<and> last line = CHR '':'' then butlast line else line)"

subsection \<open>Splitting and joining\<close>

text \<open>\<^verbatim>\<open>content.split('\n')\<close>: never empty; the empty string gives one empty line.\<close>

fun split_nl :: "string \<Rightarrow> string list" where
  "split_nl [] = [[]]"
| "split_nl (c # cs) =
     (if c = CHR 0x0A then [] # split_nl cs
      else (case split_nl cs of [] \<Rightarrow> [[c]] | l # ls \<Rightarrow> (c # l) # ls))"

text \<open>\<^verbatim>\<open>'\n'.join(result)\<close>.\<close>

fun join_nl :: "string list \<Rightarrow> string" where
  "join_nl [] = []"
| "join_nl [l] = l"
| "join_nl (l # ls) = l @ CHR 0x0A # join_nl ls"

subsection \<open>The first pass\<close>

text \<open>
  \<^verbatim>\<open>fixed_lines.insert(-1, '')\<close>: the new element goes before the last one; on an empty
  list it is simply added.
\<close>

definition insert_before_last :: "'a list \<Rightarrow> 'a \<Rightarrow> 'a list" where
  "insert_before_last xs x = (if xs = [] then [x] else butlast xs @ [x, last xs])"

text \<open>
  The scan for the end of a code block:
  \<^verbatim>\<open>while j < len(lines) and not re.match(r'^```\s*$', lines[j]): j += 1\<close>.
\<close>

function find_block_end :: "string list \<Rightarrow> nat \<Rightarrow> nat" where
  "find_block_end lines j =
     (if j < length lines \<and> \<not> is_closing_fence (lines ! j)
      then find_block_end lines (j + 1) else j)"
  by pat_completeness auto
termination
  by (relation "measure (\<lambda>(lines, j). length lines - j)") auto

declare find_block_end.simps [simp del]

text \<open>
  The copy of a code block:
  \<^verbatim>\<open>for k in range(i+1, j+1): if k < len(lines): fixed_lines.append(lines[k])\<close>.
\<close>

definition copy_block :: "string list \<Rightarrow> nat \<Rightarrow> nat \<Rightarrow> string list \<Rightarrow> string list" where
  "copy_block lines i j fixed_lines =
     fold (\<lambda>k fl. if k < length lines then fl @ [lines ! k] else fl) [i + 1..<j + 1] fixed_lines"

text \<open>
  The body of \<^verbatim>\<open>if re.match(r'^```', line):\<close>; it returns the new \<open>i\<close> (the index of the
  closing fence, or \<open>len(lines)\<close>) and the new \<open>fixed_lines\<close>.
\<close>

definition code_block :: "string list \<Rightarrow> nat \<Rightarrow> string list \<Rightarrow> nat \<times> string list" where
  "code_block lines i fixed_lines =
     (let fixed_lines =
            (if i > 0 \<and> strip (lines ! (i - 1)) \<noteq> '''' then insert_before_last fixed_lines ''''
             else fixed_lines);
          j = find_block_end lines (i + 1);
          fixed_lines = copy_block lines i j fixed_lines;
          fixed_lines =
            (if j + 1 < length lines \<and> strip (lines ! (j + 1)) \<noteq> '''' then fixed_lines @ ['''']
             else fixed_lines)
      in (j, fixed_lines))"

text \<open>
  The scan of a list:
  \<^verbatim>\<open>while j+1 < len(lines) and (re.match(r'^- ', lines[j+1]) or re.match(r'^  ', lines[j+1])):\<close>
  \<^verbatim>\<open>    j += 1; fixed_lines.append(lines[j])\<close>.
\<close>

function list_end :: "string list \<Rightarrow> nat \<Rightarrow> string list \<Rightarrow> nat \<times> string list" where
  "list_end lines j fixed_lines =
     (if j + 1 < length lines \<and> (is_list_item (lines ! (j + 1)) \<or> is_continuation (lines ! (j + 1)))
      then list_end lines (j + 1) (fixed_lines @ [lines ! (j + 1)])
      else (j, fixed_lines))"
  by pat_completeness auto
termination
  by (relation "measure (\<lambda>(lines, j, fixed_lines). length lines - j)") auto

declare list_end.simps [simp del]

text \<open>The body of \<^verbatim>\<open>if re.match(r'^- ', line):\<close>; it returns the new \<open>i\<close> and \<open>fixed_lines\<close>.\<close>

definition list_block :: "string list \<Rightarrow> nat \<Rightarrow> string list \<Rightarrow> nat \<times> string list" where
  "list_block lines i fixed_lines =
     (let fixed_lines =
            (if i > 0 \<and> \<not> is_list_item (lines ! (i - 1)) \<and> strip (lines ! (i - 1)) \<noteq> ''''
             then insert_before_last fixed_lines '''' else fixed_lines);
          (j, fixed_lines) = list_end lines i fixed_lines;
          fixed_lines =
            (if j + 1 < length lines \<and> strip (lines ! (j + 1)) \<noteq> '''' then fixed_lines @ ['''']
             else fixed_lines)
      in (j, fixed_lines))"

text \<open>
  One turn of \<^verbatim>\<open>while i < len(lines):\<close>, for \<open>i < len(lines)\<close>: the state before is
  \<open>(i, fixed_lines)\<close>, the result is the state after \<^verbatim>\<open>i += 1\<close>. The list test reads the
  variable \<open>line\<close>, which the code block leaves alone, and the \<open>i\<close> the code block has set.
\<close>

definition loop_body :: "string list \<Rightarrow> nat \<Rightarrow> string list \<Rightarrow> nat \<times> string list" where
  "loop_body lines i fixed_lines =
     (let line = lines ! i;
          fixed_lines =
            (if is_heading line \<and> i > 0 \<and> strip (lines ! (i - 1)) \<noteq> '''' then fixed_lines @ ['''']
             else fixed_lines);
          line = (if is_heading line then strip_colon line else line);
          fixed_lines = fixed_lines @ [line];
          fixed_lines =
            (if is_heading line \<and> i + 1 < length lines \<and> strip (lines ! (i + 1)) \<noteq> ''''
             then fixed_lines @ [''''] else fixed_lines);
          (i, fixed_lines) =
            (if is_fence line then code_block lines i fixed_lines else (i, fixed_lines));
          (i, fixed_lines) =
            (if is_list_item line then list_block lines i fixed_lines else (i, fixed_lines))
      in (i + 1, fixed_lines))"

text \<open>
  The loop \<^verbatim>\<open>while i < len(lines):\<close> from the state \<open>(i, fixed_lines)\<close>. It ends: a
  turn leaves \<open>i\<close> larger than it was, since neither scan moves \<open>j\<close> back.
\<close>

function main_loop :: "string list \<Rightarrow> nat \<Rightarrow> string list \<Rightarrow> string list" where
  "main_loop lines i fixed_lines =
     (if i < length lines
      then (case loop_body lines i fixed_lines of (i', fixed_lines') \<Rightarrow>
              main_loop lines i' fixed_lines')
      else fixed_lines)"
  by pat_completeness auto
termination
proof (relation "measure (\<lambda>(lines, i, fixed_lines). length lines - i)")
  show "wf (measure (\<lambda>(lines, i, fixed_lines). length lines - i))"
    by simp
next
  fix lines :: "string list" and i :: nat and fixed_lines :: "string list" and i' fixed_lines'
  assume less: "i < length lines" and body: "(i', fixed_lines') = loop_body lines i fixed_lines"
  have scan: "j \<le> find_block_end ls j" for ls j
  proof (induction ls j rule: find_block_end.induct)
    case (1 ls j)
    show ?case
    proof (cases "j < length ls \<and> \<not> is_closing_fence (ls ! j)")
      case True
      with "1" have "j + 1 \<le> find_block_end ls (j + 1)" by simp
      with True show ?thesis by (subst find_block_end.simps) simp
    next
      case False
      then show ?thesis by (subst find_block_end.simps) auto
    qed
  qed
  have items: "j \<le> fst (list_end ls j fl)" for ls j fl
  proof (induction ls j fl rule: list_end.induct)
    case (1 ls j fl)
    show ?case
    proof (cases "j + 1 < length ls \<and>
        (is_list_item (ls ! (j + 1)) \<or> is_continuation (ls ! (j + 1)))")
      case True
      with "1" have "j + 1 \<le> fst (list_end ls (j + 1) (fl @ [ls ! (j + 1)]))" by simp
      with True show ?thesis by (subst list_end.simps) simp
    next
      case False
      then show ?thesis by (subst list_end.simps) auto
    qed
  qed
  have a: "i < Suc (find_block_end lines (Suc i))"
    using scan [of "Suc i" lines] by simp
  have b: "i < Suc (fst (list_end lines i fl))" for fl
    using items [of i lines fl] by simp
  have c: "i < Suc (fst (list_end lines (find_block_end lines (Suc i)) fl))" for fl
    using items [of "find_block_end lines (Suc i)" lines fl] scan [of "Suc i" lines] by simp
  have "i < fst (loop_body lines i fixed_lines)"
    using a b c by (simp add: loop_body_def code_block_def list_block_def Let_def split_beta)
  then have "i < i'"
    using body by (cases "loop_body lines i fixed_lines") auto
  then show "((lines, i', fixed_lines'), lines, i, fixed_lines)
      \<in> measure (\<lambda>(lines, i, fixed_lines). length lines - i)"
    using less by simp
qed

declare main_loop.simps [simp del]

subsection \<open>The second pass\<close>

text \<open>
  \<^verbatim>\<open>for line in fixed_lines:\<close> with the state \<open>(result, prev_empty)\<close>: a blank line is kept
  only when the line before it in \<open>fixed_lines\<close> was not blank.
\<close>

fun remove_consecutive_empty :: "string list \<Rightarrow> string list \<Rightarrow> bool \<Rightarrow> string list" where
  "remove_consecutive_empty [] result prev_empty = result"
| "remove_consecutive_empty (line # fixed_lines) result prev_empty =
     (if strip line = ''''
      then remove_consecutive_empty fixed_lines
             (if \<not> prev_empty then result @ [line] else result) True
      else remove_consecutive_empty fixed_lines (result @ [line]) False)"

subsection \<open>The formatter\<close>

definition fix_markdown_formatting :: "string \<Rightarrow> string" where
  "fix_markdown_formatting content =
     (let lines = split_nl content;
          fixed_lines = main_loop lines 0 [];
          result = remove_consecutive_empty fixed_lines [] False
      in join_nl result)"

subsection \<open>The script\<close>

text \<open>
  The block under \<^verbatim>\<open>if __name__ == '__main__':\<close>, on an explicit world: the files by
  path (a path with no entry cannot be opened or decoded: \<^verbatim>\<open>open\<close> or \<^verbatim>\<open>read\<close> raises)
  and the trace of what the process did. \<^verbatim>\<open>sys.exit(1)\<close> ends the process with status 1,
  an exception nobody catches ends it with a traceback, the end of the script gives status 0.
  The content of a file is the text \<^verbatim>\<open>read\<close> returns for it. A failing write is outside
  this model.
\<close>

datatype event = Print string | Read_file string | Write_file string string

record world =
  files :: "string \<Rightarrow> string option"
  events :: "event list"

datatype status = Exit nat | Uncaught_exception

definition emit :: "event \<Rightarrow> world \<Rightarrow> world" where
  "emit e w = w\<lparr>events := events w @ [e]\<rparr>"

definition main :: "string list \<Rightarrow> world \<Rightarrow> status \<times> world" where
  "main argv w =
     (if length argv \<noteq> 2
      then (Exit 1, emit (Print ''Usage: python3 fix_markdown.py <file>'') w)
      else
        (let filename = argv ! 1 in
         case files w filename of
           None \<Rightarrow> (Uncaught_exception, w)
         | Some content \<Rightarrow>
             (let w = emit (Read_file filename) w;
                  fixed_content = fix_markdown_formatting content;
                  w = emit (Write_file filename fixed_content)
                        (w\<lparr>files := (files w)(filename \<mapsto> fixed_content)\<rparr>);
                  w = emit (Print (''Fixed markdown formatting in '' @ filename)) w
              in (Exit 0, w))))"

subsection \<open>Notions for the proofs\<close>

text \<open>
  The functions above follow the script statement by statement. The properties are
  stated and proved with a few further notions, none of which is part of the script: the
  second pass without its accumulator (\<open>collapse\<close>), the first pass as a recursion over the rest
  of the document (\<open>pass_one\<close>, shown equal to \<open>main_loop\<close> below), and the states
  \<open>(i, fixed_lines)\<close> in which the loop tests its condition (\<open>visits\<close>). A line is
  processed by the main loop when its index is such an \<open>i\<close> (\<open>visited\<close>); the other lines
  are the ones a code block or a list copies.
\<close>

text \<open>
  The second pass without its accumulator: what the loop adds to \<open>result\<close> from the state
  \<open>prev_empty\<close> on, for the lines still to come.
\<close>

fun collapse :: "bool \<Rightarrow> string list \<Rightarrow> string list" where
  "collapse prev_empty [] = []"
| "collapse prev_empty (line # fixed_lines) =
     (if strip line = []
      then (if prev_empty then collapse True fixed_lines else line # collapse True fixed_lines)
      else line # collapse False fixed_lines)"

text \<open>
  The first pass as a recursion over the lines still to come. \<open>prev\<close> is the line of the
  document before them (none at the start), \<open>rest\<close> the lines after the current one. The
  tests on the neighbours of a block:
\<close>

definition prev_nonblank :: "string option \<Rightarrow> bool" where
  "prev_nonblank prev = (case prev of None \<Rightarrow> False | Some l \<Rightarrow> strip l \<noteq> [])"

definition prev_item :: "string option \<Rightarrow> bool" where
  "prev_item prev = (case prev of None \<Rightarrow> False | Some l \<Rightarrow> is_list_item l)"

definition next_nonblank :: "string list \<Rightarrow> bool" where
  "next_nonblank rest = (case rest of [] \<Rightarrow> False | l # _ \<Rightarrow> strip l \<noteq> [])"

text \<open>The empty line a test adds, or nothing.\<close>

definition blank_if :: "bool \<Rightarrow> string list" where
  "blank_if b = (if b then [[]] else [])"

text \<open>The lines a list goes on with, and the lines a code block goes on with.\<close>

definition in_list :: "string \<Rightarrow> bool" where
  "in_list l = (is_list_item l \<or> is_continuation l)"

definition in_block :: "string \<Rightarrow> bool" where
  "in_block l = (\<not> is_closing_fence l)"

text \<open>
  A heading gives itself without its colon, between the empty lines its tests add. A fence
  copies the lines up to the closing fence and that fence, or all lines when there is
  none. A list item copies the lines that go on with the list. The recursion resumes
  after the block, with the block's last line as \<open>prev\<close>.
\<close>

function pass_one :: "string option \<Rightarrow> string list \<Rightarrow> string list" where
  "pass_one prev [] = []"
| "pass_one prev (line # rest) =
     (if is_heading line then
        blank_if (prev_nonblank prev) @ [strip_colon line] @ blank_if (next_nonblank rest) @
          pass_one (Some line) rest
      else if is_fence line then
        blank_if (prev_nonblank prev) @ [line] @ takeWhile in_block rest @
          (case dropWhile in_block rest of
             [] \<Rightarrow> []
           | c # post \<Rightarrow> c # blank_if (next_nonblank post) @ pass_one (Some c) post)
      else if is_list_item line then
        blank_if (prev_nonblank prev \<and> \<not> prev_item prev) @ [line] @ takeWhile in_list rest @
          blank_if (next_nonblank (dropWhile in_list rest)) @
          pass_one (Some (last (line # takeWhile in_list rest))) (dropWhile in_list rest)
      else line # pass_one (Some line) rest)"
  by pat_completeness auto

termination
proof (relation "measure (\<lambda>(prev, ls). length ls)")
  show "wf (measure (\<lambda>(prev, ls). length ls))" by simp
next
  fix prev line rest show "((Some line, rest), prev, line # rest) \<in> measure (\<lambda>(prev, ls). length ls)"
    by simp
next
  fix prev :: "string option" and line :: string and rest x21 x22
  assume "dropWhile in_block rest = x21 # x22"
  then have "length (x21 # x22) \<le> length rest"
    using length_dropWhile_le [of in_block rest] by simp
  then show "((Some x21, x22), prev, line # rest) \<in> measure (\<lambda>(prev, ls). length ls)"
    by simp
next
  fix prev :: "string option" and line :: string and rest
  show "((Some (last (line # takeWhile in_list rest)), dropWhile in_list rest), prev, line # rest)
       \<in> measure (\<lambda>(prev, ls). length ls)"
    using length_dropWhile_le [of in_list rest] by simp
next
  fix prev :: "string option" and line :: string and rest
  show "((Some line, rest), prev, line # rest) \<in> measure (\<lambda>(prev, ls). length ls)"
    by simp
qed

declare pass_one.simps(2) [simp del]

text \<open>The line before index \<open>i\<close>.\<close>

definition prev_of :: "string list \<Rightarrow> nat \<Rightarrow> string option" where
  "prev_of lines i = (if i = 0 then None else Some (lines ! (i - 1)))"

text \<open>
  The states \<open>(i, fixed_lines)\<close> in which the loop tests \<^verbatim>\<open>i < len(lines)\<close>: the first
  state, and the state after a turn from such a state.
\<close>

inductive visits :: "string list \<Rightarrow> nat \<Rightarrow> string list \<Rightarrow> bool" for lines where
  start: "visits lines 0 []"
| step: "visits lines i fixed_lines \<Longrightarrow> i < length lines \<Longrightarrow>
         loop_body lines i fixed_lines = (i', fixed_lines') \<Longrightarrow> visits lines i' fixed_lines'"

text \<open>No blank line follows a blank line.\<close>

fun no_double_blank :: "string list \<Rightarrow> bool" where
  "no_double_blank [] = True"
| "no_double_blank [x] = True"
| "no_double_blank (x # y # zs) = (\<not> (strip x = [] \<and> strip y = []) \<and> no_double_blank (y # zs))"

text \<open>
  The main loop processes line \<open>i\<close>: it is the current line of a turn. The lines in
  between are copied by a code block or a list.
\<close>

definition visited :: "string list \<Rightarrow> nat \<Rightarrow> bool" where
  "visited lines i = (\<exists>fixed_lines. visits lines i fixed_lines)"

text \<open>What the first pass makes of line \<open>i\<close>: only a heading it processes can change.\<close>

definition first_pass_line :: "string list \<Rightarrow> nat \<Rightarrow> string" where
  "first_pass_line lines i =
     (if visited lines i \<and> is_heading (lines ! i) then strip_colon (lines ! i) else lines ! i)"

text \<open>The lines that are not blank.\<close>

abbreviation nonblank :: "string list \<Rightarrow> string list" where
  "nonblank ls \<equiv> filter (\<lambda>l. strip l \<noteq> []) ls"

text \<open>
  Where a turn at \<open>i\<close> leaves the index, and what it adds to \<open>fixed_lines\<close>: neither
  depends on \<open>fixed_lines\<close>.
\<close>

definition next_index :: "string list \<Rightarrow> nat \<Rightarrow> nat" where
  "next_index lines i = fst (loop_body lines i [])"

definition block_out :: "string list \<Rightarrow> nat \<Rightarrow> string list" where
  "block_out lines i = snd (loop_body lines i [])"

text \<open>The line ends in two colons.\<close>

definition double_colon :: "string \<Rightarrow> bool" where
  "double_colon line = (2 \<le> length line \<and> drop (length line - 2) line = ''::'')"

text \<open>
  Whether a second run leaves the formatted document alone is decided by one scan of the
  document, in the order of the main loop. The second run reads the lines the first run
  has written. It parses them as the first run has parsed the document, with one
  exception: where a list ends in a whitespace-only line and a blank line follows, the
  second pass has dropped that blank line, so in the formatted document the list is still
  open. The scan is in one of three modes:

  \<^item> \<open>Aligned\<close>: the second run is where the first run was;
  \<^item> \<open>Open_blank\<close>: in the second run a list is open, and its last line so far is
    whitespace-only;
  \<^item> \<open>Open_text\<close>: in the second run a list is open, and its last line so far is not
    blank.
\<close>

datatype mode = Aligned | Open_blank | Open_text

text \<open>
  \<open>settles mode lines\<close>: from \<open>mode\<close> on, the second run changes nothing in what the first
  run makes of \<open>lines\<close>. Line by line:

  \<^item> a blank line keeps an open list open if the list's last line is blank (the second
    pass drops the line) or if the line itself starts with two spaces (it goes on with
    the list); otherwise it closes the list;
  \<^item> a heading closes an open list; the second run changes it if it ends in two colons,
    since each run removes one;
  \<^item> a fence closes an open list; its block is copied by both runs, and the scan resumes
    after the closing fence;
  \<^item> a list item starts a list, and whether the second run takes it for the start of a
    list or for one more line of the open list makes no difference; after the last line
    of the list the scan resumes, with the list open if that last line is whitespace-only
    and the next line is blank;
  \<^item> another line that starts with two spaces is text for the first run, and goes on with
    an open list in the second run;
  \<^item> any other line closes an open list; the second run puts an empty line before it if
    the list's last line is not blank, and this is the one place where it adds a line.
\<close>

function settles :: "mode \<Rightarrow> string list \<Rightarrow> bool" where
  "settles mode [] = True"
| "settles mode (line # rest) =
     (if strip line = [] then
        settles (if mode = Open_blank \<or> (mode = Open_text \<and> is_continuation line)
                 then Open_blank else Aligned) rest
      else if is_heading line then \<not> double_colon line \<and> settles Aligned rest
      else if is_fence line then
        (case dropWhile in_block rest of [] \<Rightarrow> True | c # post \<Rightarrow> settles Aligned post)
      else if is_list_item line then
        (case dropWhile in_list rest of
           [] \<Rightarrow> True
         | r # rs \<Rightarrow>
             if strip (last (line # takeWhile in_list rest)) = [] \<and> strip r = []
             then settles Open_blank rs else settles Aligned (r # rs))
      else if is_continuation line then
        settles (if mode = Aligned then Aligned else Open_text) rest
      else mode \<noteq> Open_text \<and> settles Aligned rest)"
  by pat_completeness auto

termination
proof (relation "measure (\<lambda>(m, ls). length ls)", goal_cases)
  case 1
  show ?case by simp
next
  case (2 mode line rest)
  then show ?case by simp
next
  case (3 mode line rest)
  then show ?case by simp
next
  case (4 mode line rest c post)
  then have "length (c # post) \<le> length rest"
    using length_dropWhile_le [of in_block rest] by simp
  then show ?case by simp
next
  case (5 mode line rest r rs)
  then have "length (r # rs) \<le> length rest"
    using length_dropWhile_le [of in_list rest] by simp
  then show ?case by simp
next
  case (6 mode line rest r rs)
  then have "length (r # rs) \<le> length rest"
    using length_dropWhile_le [of in_list rest] by simp
  then show ?case by simp
next
  case (7 mode line rest)
  then show ?case by simp
next
  case (8 mode line rest)
  then show ?case by simp
qed

declare settles.simps(2) [simp del]

text \<open>
  The first pass from inside a list whose last line so far is \<open>m\<close>: the rest of the scan
  of the list, the empty line after it, and the lines after the list.
\<close>

definition list_cont :: "string \<Rightarrow> string list \<Rightarrow> string list" where
  "list_cont m ys =
     takeWhile in_list ys @ blank_if (next_nonblank (dropWhile in_list ys)) @
       pass_one (Some (last (m # takeWhile in_list ys))) (dropWhile in_list ys)"

text \<open>
  The second run is at a state \<open>(p', b)\<close> where the first run was at \<open>p\<close>: \<open>p'\<close> is the last
  line the second pass has kept, \<open>b\<close> its \<open>prev_empty\<close>, \<open>p\<close> the last line of the document
  the first pass has consumed. The second run sees a blank line wherever the first run had
  a reason to add one.
\<close>

definition compatible :: "string option \<Rightarrow> bool \<Rightarrow> string option \<Rightarrow> bool" where
  "compatible p' b p =
     ((b \<longleftrightarrow> p' \<noteq> None \<and> \<not> prev_nonblank p') \<and>
      (prev_nonblank p' \<longrightarrow> prev_nonblank p \<and> (prev_item p' \<longleftrightarrow> prev_item p)))"

text \<open>
  The second run, from the state \<open>(q, c)\<close> or from inside a list with the last line \<open>m\<close>,
  gives back what the first run makes of \<open>xs\<close> from the state \<open>(p, c)\<close>.
\<close>

definition again :: "string option \<Rightarrow> bool \<Rightarrow> string option \<Rightarrow> string list \<Rightarrow> bool" where
  "again q c p xs =
     (collapse c (pass_one q (collapse c (pass_one p xs))) = collapse c (pass_one p xs))"

definition again_list :: "string \<Rightarrow> bool \<Rightarrow> string option \<Rightarrow> string list \<Rightarrow> bool" where
  "again_list m c p xs =
     (collapse c (list_cont m (collapse c (pass_one p xs))) = collapse c (pass_one p xs))"

section \<open>Auxiliary facts\<close>

subsection \<open>Lines and patterns\<close>

lemma strip_eq_Nil: "strip s = [] \<longleftrightarrow> (\<forall>c\<in>set s. isspace c)"
proof
  assume "strip s = []"
  then have a: "\<forall>x\<in>set (dropWhile isspace s). isspace x"
    by (simp add: strip_def dropWhile_eq_Nil_conv)
  have "dropWhile isspace s = []"
  proof (rule ccontr)
    assume n: "dropWhile isspace s \<noteq> []"
    then have "\<not> isspace (hd (dropWhile isspace s))" by (rule hd_dropWhile)
    moreover have "hd (dropWhile isspace s) \<in> set (dropWhile isspace s)" using n by simp
    ultimately show False using a by blast
  qed
  then show "\<forall>c\<in>set s. isspace c" by simp
next
  assume "\<forall>c\<in>set s. isspace c"
  then have "dropWhile isspace s = []" by simp
  then have "strip s = rev (dropWhile isspace (rev []))" by (simp only: strip_def)
  then show "strip s = []" by simp
qed

lemma strip_Nil [simp]: "strip [] = []"
  by (simp add: strip_def)

lemma nonblank_hd: "s \<noteq> [] \<Longrightarrow> \<not> isspace (hd s) \<Longrightarrow> strip s \<noteq> []"
  by (cases s) (auto simp: strip_eq_Nil)

lemma is_heading_hd: "is_heading l \<Longrightarrow> l \<noteq> [] \<and> hd l = CHR ''#''"
proof -
  assume "is_heading l"
  then obtain k where k: "k < length l" "take k l = replicate k CHR ''#''" "1 \<le> k"
    by (auto simp: is_heading_def list_ex_iff)
  have "take k l ! 0 = l ! 0" using k by (intro nth_take) simp
  moreover have "replicate k CHR ''#'' ! 0 = CHR ''#''" using k by (intro nth_replicate) simp
  ultimately have "l ! 0 = CHR ''#''" using k(2) by simp
  with k(1) show ?thesis by (cases l) auto
qed

lemma is_fence_hd: "is_fence l \<Longrightarrow> l \<noteq> [] \<and> hd l = CHR 0x60"
  by (cases l) (auto simp: is_fence_def)

lemma is_list_item_hd: "is_list_item l \<Longrightarrow> l \<noteq> [] \<and> hd l = CHR ''-''"
  by (cases l) (auto simp: is_list_item_def)

lemma is_continuation_hd: "is_continuation l \<Longrightarrow> l \<noteq> [] \<and> hd l = CHR '' ''"
  by (cases l) (auto simp: is_continuation_def)

lemma is_closing_fence_fence: "is_closing_fence l \<Longrightarrow> is_fence l"
  by (simp add: is_closing_fence_def is_fence_def)

lemma heading_nonblank: "is_heading l \<Longrightarrow> strip l \<noteq> []"
  using is_heading_hd [of l] nonblank_hd [of l] by (simp add: isspace_def)

lemma fence_nonblank: "is_fence l \<Longrightarrow> strip l \<noteq> []"
  using is_fence_hd [of l] nonblank_hd [of l] by (simp add: isspace_def)

lemma list_item_nonblank: "is_list_item l \<Longrightarrow> strip l \<noteq> []"
  using is_list_item_hd [of l] nonblank_hd [of l] by (simp add: isspace_def)

lemma heading_not_fence: "is_heading l \<Longrightarrow> \<not> is_fence l"
  using is_heading_hd [of l] is_fence_hd [of l] by auto

lemma heading_not_list_item: "is_heading l \<Longrightarrow> \<not> is_list_item l"
  using is_heading_hd [of l] is_list_item_hd [of l] by auto

lemma heading_not_continuation: "is_heading l \<Longrightarrow> \<not> is_continuation l"
  using is_heading_hd [of l] is_continuation_hd [of l] by auto

lemma fence_not_list_item: "is_fence l \<Longrightarrow> \<not> is_list_item l"
  using is_fence_hd [of l] is_list_item_hd [of l] by auto

lemma is_heading_strip_colon: "is_heading l \<Longrightarrow> is_heading (strip_colon l)"
proof -
  assume h: "is_heading l"
  then obtain k where k: "k < length l" "take k l = replicate k CHR ''#''" "isspace (l ! k)"
    "1 \<le> k" "k < 7"
    by (auto simp: is_heading_def list_ex_iff)
  show ?thesis
  proof (cases "l \<noteq> [] \<and> last l = CHR '':''")
    case False
    then show ?thesis using h by (auto simp: strip_colon_def)
  next
    case True
    then have "l ! (length l - 1) = CHR '':''" using last_conv_nth [of l] by auto
    with k(3) have "k \<noteq> length l - 1" by (auto simp: isspace_def)
    with k(1) have kl: "k < length l - 1" by simp
    then have "k < length (butlast l)" by simp
    moreover have "take k (butlast l) = replicate k CHR ''#''"
      using k(2) kl by (simp add: take_butlast)
    moreover have "isspace (butlast l ! k)"
      using k(3) kl by (simp add: nth_butlast)
    ultimately have "is_heading (butlast l)"
      using k(4,5) unfolding is_heading_def list_ex_iff by auto
    with True show ?thesis by (simp add: strip_colon_def)
  qed
qed

lemma strip_colon_set: "set (strip_colon l) \<subseteq> set l"
  by (auto simp: strip_colon_def dest: in_set_butlastD)

subsection \<open>The inner loops\<close>

lemma remove_consecutive_empty_collapse:
  "remove_consecutive_empty xs result b = result @ collapse b xs"
  by (induction xs arbitrary: result b) auto

lemma find_block_end_eq:
  "j \<le> length lines \<Longrightarrow>
   find_block_end lines j = j + length (takeWhile in_block (drop j lines))"
proof (induction lines j rule: find_block_end.induct)
  case (1 lines j)
  show ?case
  proof (cases "j < length lines \<and> \<not> is_closing_fence (lines ! j)")
    case True
    then have d: "drop j lines = lines ! j # drop (Suc j) lines"
      by (simp add: Cons_nth_drop_Suc)
    from True "1" have "find_block_end lines (j + 1)
        = j + 1 + length (takeWhile in_block (drop (j + 1) lines))" by simp
    with True d show ?thesis
      by (subst find_block_end.simps) (simp add: in_block_def)
  next
    case False
    show ?thesis
    proof (cases "j < length lines")
      case True
      then have d: "drop j lines = lines ! j # drop (Suc j) lines"
        by (simp add: Cons_nth_drop_Suc)
      with True False show ?thesis
        by (subst find_block_end.simps) (simp add: in_block_def)
    next
      case False
      then show ?thesis using "1.prems"
        by (subst find_block_end.simps) simp
    qed
  qed
qed

lemma fold_append_lines:
  "a \<le> b \<Longrightarrow>
   fold (\<lambda>k fl. if k < length lines then fl @ [lines ! k] else fl) [a..<b] fl
     = fl @ take (b - a) (drop a lines)"
proof (induction b)
  case 0
  then show ?case by simp
next
  case (Suc b)
  show ?case
  proof (cases "a = Suc b")
    case True
    then show ?thesis by simp
  next
    case False
    with Suc.prems have ab: "a \<le> b" by simp
    then have s: "Suc b - a = Suc (b - a)" by simp
    show ?thesis
    proof (cases "b < length lines")
      case True
      then have "b - a < length (drop a lines)" using ab by simp
      then have "take (Suc (b - a)) (drop a lines)
          = take (b - a) (drop a lines) @ [drop a lines ! (b - a)]"
        by (rule take_Suc_conv_app_nth)
      moreover have "drop a lines ! (b - a) = lines ! b" using ab True by simp
      ultimately show ?thesis using Suc.IH [OF ab] ab True s by simp
    next
      case False
      then have "take (Suc (b - a)) (drop a lines) = take (b - a) (drop a lines)"
        by simp
      then show ?thesis using Suc.IH [OF ab] ab False s by simp
    qed
  qed
qed

lemma copy_block_eq:
  "i \<le> j \<Longrightarrow> copy_block lines i j fl = fl @ take (j - i) (drop (Suc i) lines)"
  using fold_append_lines [of "Suc i" "Suc j" lines fl] by (simp add: copy_block_def)

lemma list_end_eq:
  "list_end lines j fl =
     (j + length (takeWhile in_list (drop (Suc j) lines)),
      fl @ takeWhile in_list (drop (Suc j) lines))"
proof (induction lines j fl rule: list_end.induct)
  case (1 lines j fl)
  let ?c = "j + 1 < length lines \<and>
    (is_list_item (lines ! (j + 1)) \<or> is_continuation (lines ! (j + 1)))"
  show ?case
  proof (cases ?c)
    case True
    then have d: "drop (Suc j) lines = lines ! Suc j # drop (Suc (Suc j)) lines"
      by (simp add: Cons_nth_drop_Suc)
    from True "1" have "list_end lines (j + 1) (fl @ [lines ! (j + 1)])
        = (j + 1 + length (takeWhile in_list (drop (Suc (j + 1)) lines)),
           (fl @ [lines ! (j + 1)]) @ takeWhile in_list (drop (Suc (j + 1)) lines))"
      by simp
    with True d show ?thesis
      by (subst list_end.simps) (simp add: in_list_def)
  next
    case False
    show ?thesis
    proof (cases "j + 1 < length lines")
      case True
      then have d: "drop (Suc j) lines = lines ! Suc j # drop (Suc (Suc j)) lines"
        by (simp add: Cons_nth_drop_Suc)
      with True False show ?thesis
        by (subst list_end.simps) (simp add: in_list_def)
    next
      case False
      then show ?thesis
        by (subst list_end.simps) simp
    qed
  qed
qed

lemma next_nonblank_drop:
  "next_nonblank (drop k lines) = (k < length lines \<and> strip (lines ! k) \<noteq> [])"
proof (cases "k < length lines")
  case True
  then have "drop k lines = lines ! k # drop (Suc k) lines"
    by (simp add: Cons_nth_drop_Suc)
  with True show ?thesis by (simp add: next_nonblank_def)
next
  case False
  then show ?thesis by (simp add: next_nonblank_def)
qed

lemma prev_nonblank_prev_of:
  "prev_nonblank (prev_of lines i) = (i > 0 \<and> strip (lines ! (i - 1)) \<noteq> [])"
  by (simp add: prev_nonblank_def prev_of_def)

lemma prev_item_prev_of:
  "prev_item (prev_of lines i) = (i > 0 \<and> is_list_item (lines ! (i - 1)))"
  by (simp add: prev_item_def prev_of_def)

lemma insert_before_last_snoc: "insert_before_last (xs @ [x]) y = xs @ [y, x]"
  by (simp add: insert_before_last_def)

subsection \<open>The main loop as a recursion over the rest of the document\<close>

lemma blank_if_simps [simp]: "blank_if True = [[]]" "blank_if False = []"
  by (simp_all add: blank_if_def)

lemma loop_body_heading:
  assumes "i < length lines" "is_heading (lines ! i)"
  shows "loop_body lines i fl =
     (Suc i, fl @ blank_if (prev_nonblank (prev_of lines i)) @ [strip_colon (lines ! i)] @
               blank_if (next_nonblank (drop (Suc i) lines)))"
proof -
  have h: "is_heading (strip_colon (lines ! i))"
    using assms(2) by (rule is_heading_strip_colon)
  then have "\<not> is_fence (strip_colon (lines ! i))" "\<not> is_list_item (strip_colon (lines ! i))"
    by (simp_all add: heading_not_fence heading_not_list_item)
  then show ?thesis
    using assms h
    by (simp add: loop_body_def Let_def next_nonblank_drop prev_nonblank_prev_of blank_if_def)
qed

lemma loop_body_plain:
  assumes "i < length lines" "\<not> is_heading (lines ! i)" "\<not> is_fence (lines ! i)"
    "\<not> is_list_item (lines ! i)"
  shows "loop_body lines i fl = (Suc i, fl @ [lines ! i])"
  using assms by (simp add: loop_body_def Let_def)

lemma loop_body_fence:
  assumes "i < length lines" "is_fence (lines ! i)"
  shows "loop_body lines i fl =
     (Suc (Suc i + length (takeWhile in_block (drop (Suc i) lines))),
      fl @ blank_if (prev_nonblank (prev_of lines i)) @ [lines ! i] @
        take (Suc (length (takeWhile in_block (drop (Suc i) lines)))) (drop (Suc i) lines) @
        blank_if (next_nonblank
          (drop (Suc (length (takeWhile in_block (drop (Suc i) lines)))) (drop (Suc i) lines))))"
proof -
  define rest where "rest = drop (Suc i) lines"
  define n where "n = length (takeWhile in_block rest)"
  define pb where "pb = blank_if (prev_nonblank (prev_of lines i))"
  define nb where "nb = blank_if (next_nonblank (drop (Suc n) rest))"
  have nh: "\<not> is_heading (lines ! i)" "\<not> is_list_item (lines ! i)"
    using assms(2) heading_not_fence fence_not_list_item by blast+
  have j: "find_block_end lines (Suc i) = Suc (i + n)"
    using assms(1) by (simp add: find_block_end_eq n_def rest_def)
  have c: "copy_block lines i (Suc (i + n)) xs = xs @ take (Suc n) rest" for xs
    by (simp add: copy_block_eq rest_def)
  have "drop (Suc n) rest = drop (Suc (Suc (i + n))) lines"
    by (simp add: rest_def add.commute)
  then have a: "nb = (if Suc (Suc (i + n)) < length lines \<and> strip (lines ! Suc (Suc (i + n))) \<noteq> []
      then [[]] else [])"
    using next_nonblank_drop [of "Suc (Suc (i + n))" lines] by (auto simp add: nb_def blank_if_def)
  have b: "(if 0 < i \<and> strip (lines ! (i - 1)) \<noteq> [] then insert_before_last (fl @ [lines ! i]) []
      else fl @ [lines ! i]) = fl @ pb @ [lines ! i]"
    by (simp add: insert_before_last_snoc prev_nonblank_prev_of pb_def)
  have "code_block lines i (fl @ [lines ! i]) =
      (Suc (i + n), fl @ pb @ [lines ! i] @ take (Suc n) rest @ nb)"
    unfolding code_block_def Let_def
    by (simp only: b Suc_eq_plus1 [symmetric] j c) (simp add: a)
  then have "loop_body lines i fl = (Suc (Suc (i + n)), fl @ pb @ [lines ! i] @ take (Suc n) rest @ nb)"
    using nh assms by (simp add: loop_body_def Let_def)
  then show ?thesis
    by (simp add: pb_def nb_def n_def rest_def)
qed

lemma loop_body_list:
  assumes "i < length lines" "is_list_item (lines ! i)"
  shows "loop_body lines i fl =
     (Suc (i + length (takeWhile in_list (drop (Suc i) lines))),
      fl @ blank_if (prev_nonblank (prev_of lines i) \<and> \<not> prev_item (prev_of lines i)) @
        [lines ! i] @ takeWhile in_list (drop (Suc i) lines) @
        blank_if (next_nonblank (dropWhile in_list (drop (Suc i) lines))))"
proof -
  define rest where "rest = drop (Suc i) lines"
  define n where "n = length (takeWhile in_list rest)"
  define pb where "pb = blank_if (prev_nonblank (prev_of lines i) \<and> \<not> prev_item (prev_of lines i))"
  define nb where "nb = blank_if (next_nonblank (dropWhile in_list rest))"
  have nh: "\<not> is_heading (lines ! i)" "\<not> is_fence (lines ! i)"
    using assms(2) heading_not_list_item fence_not_list_item by blast+
  have d: "dropWhile in_list rest = drop (Suc (i + n)) lines"
    by (simp add: dropWhile_eq_drop add.commute n_def rest_def)
  have a: "nb = (if Suc (i + n) < length lines \<and> strip (lines ! Suc (i + n)) \<noteq> []
      then [[]] else [])"
    unfolding nb_def d by (auto simp add: next_nonblank_drop blank_if_def)
  have b: "(if 0 < i \<and> \<not> is_list_item (lines ! (i - 1)) \<and> strip (lines ! (i - 1)) \<noteq> []
      then insert_before_last (fl @ [lines ! i]) [] else fl @ [lines ! i]) = fl @ pb @ [lines ! i]"
    by (auto simp add: insert_before_last_snoc prev_nonblank_prev_of prev_item_prev_of pb_def
        blank_if_def)
  have e: "list_end lines i xs = (i + n, xs @ takeWhile in_list rest)" for xs
    by (simp add: list_end_eq n_def rest_def)
  have "list_block lines i (fl @ [lines ! i]) =
      (i + n, fl @ pb @ [lines ! i] @ takeWhile in_list rest @ nb)"
    unfolding list_block_def Let_def
    by (simp only: b e prod.case Suc_eq_plus1 [symmetric]) (simp add: a)
  then have "loop_body lines i fl =
      (Suc (i + n), fl @ pb @ [lines ! i] @ takeWhile in_list rest @ nb)"
    using nh assms by (simp add: loop_body_def Let_def)
  then show ?thesis
    by (simp add: pb_def nb_def n_def rest_def)
qed

lemma loop_body_pass_one:
  assumes "i < length lines" "loop_body lines i fl = (i', fl')"
  shows "fl' @ pass_one (prev_of lines i') (drop i' lines)
       = fl @ pass_one (prev_of lines i) (drop i lines)"
proof -
  define l where "l = lines ! i"
  define rest where "rest = drop (Suc i) lines"
  define p where "p = prev_of lines i"
  have d: "drop i lines = l # rest"
    using assms(1) by (simp add: Cons_nth_drop_Suc l_def rest_def)
  have b: "loop_body lines i fl = (i'', fl'') \<Longrightarrow> i' = i'' \<and> fl' = fl''" for i'' fl''
    using assms(2) by simp
  consider (heading) "is_heading l" | (fence) "\<not> is_heading l" "is_fence l"
    | (item) "\<not> is_heading l" "\<not> is_fence l" "is_list_item l"
    | (plain) "\<not> is_heading l" "\<not> is_fence l" "\<not> is_list_item l"
    by blast
  then show ?thesis
  proof cases
    case heading
    have pr: "prev_of lines (Suc i) = Some l" by (simp add: prev_of_def l_def)
    have "i' = Suc i \<and> fl' = fl @ blank_if (prev_nonblank p) @
        [strip_colon l] @ blank_if (next_nonblank rest)"
      using loop_body_heading [OF assms(1), of fl] heading
      unfolding l_def rest_def p_def by (intro b) simp
    then show ?thesis
      unfolding d p_def [symmetric] using heading
      by (simp add: pass_one.simps(2) pr rest_def [symmetric])
  next
    case plain
    have pr: "prev_of lines (Suc i) = Some l" by (simp add: prev_of_def l_def)
    have "i' = Suc i \<and> fl' = fl @ [l]"
      using loop_body_plain [OF assms(1), of fl] plain
      unfolding l_def by (intro b) simp
    then show ?thesis
      unfolding d p_def [symmetric] using plain
      by (simp add: pass_one.simps(2) pr rest_def [symmetric])
  next
    case fence
    define body where "body = takeWhile in_block rest"
    define n where "n = length body"
    have e: "i' = Suc (Suc i + n) \<and> fl' = fl @ blank_if (prev_nonblank p) @ [l] @
        take (Suc n) rest @ blank_if (next_nonblank (drop (Suc n) rest))"
      using loop_body_fence [OF assms(1), of fl] fence
      unfolding l_def rest_def p_def n_def body_def by (intro b) simp
    have di': "drop i' lines = drop (Suc n) rest"
      using e by (simp add: rest_def add.commute)
    have u: "pass_one p (l # rest) = blank_if (prev_nonblank p) @ [l] @ takeWhile in_block rest @
          (case dropWhile in_block rest of [] \<Rightarrow> []
           | c # post \<Rightarrow> c # blank_if (next_nonblank post) @ pass_one (Some c) post)"
      using fence by (simp add: pass_one.simps(2))
    show ?thesis
    proof (cases "dropWhile in_block rest")
      case Nil
      then have br: "takeWhile in_block rest = rest"
        by (metis takeWhile_dropWhile_id append_Nil2)
      then have "n = length rest" by (simp only: n_def body_def)
      then have t: "take (Suc n) rest = rest" "drop (Suc n) rest = []" by simp_all
      have "pass_one p (l # rest) = blank_if (prev_nonblank p) @ [l] @ rest"
        unfolding u Nil br by simp
      then show ?thesis
        unfolding d p_def [symmetric] di' using e
        by (simp add: t next_nonblank_def)
    next
      case (Cons c post)
      then have r: "rest = body @ c # post"
        unfolding body_def by (metis takeWhile_dropWhile_id)
      have t: "take (Suc n) rest = body @ [c]"
        by (simp add: r n_def)
      have dr: "drop (Suc n) rest = post"
        by (simp add: r n_def)
      have "rest ! n = c" by (simp add: r n_def)
      moreover have "n < length rest" by (simp add: r n_def)
      ultimately have "lines ! (Suc i + n) = c" by (simp add: rest_def add.commute)
      then have pr: "prev_of lines i' = Some c" using e by (simp add: prev_of_def)
      have "pass_one p (l # rest) = blank_if (prev_nonblank p) @ [l] @ body @
          c # blank_if (next_nonblank post) @ pass_one (Some c) post"
        unfolding u Cons body_def by simp
      then show ?thesis
        unfolding d p_def [symmetric] di' pr using e
        by (simp add: t dr)
    qed
  next
    case item
    define items where "items = takeWhile in_list rest"
    define post where "post = dropWhile in_list rest"
    define n where "n = length items"
    have e: "i' = Suc (i + n) \<and>
        fl' = fl @ blank_if (prev_nonblank p \<and> \<not> prev_item p) @
        [l] @ items @ blank_if (next_nonblank post)"
      using loop_body_list [OF assms(1), of fl] item
      unfolding l_def rest_def p_def n_def items_def post_def by (intro b) simp
    have di': "drop i' lines = post"
      using e by (simp add: dropWhile_eq_drop add.commute post_def n_def items_def rest_def)
    have nl: "n \<le> length rest" unfolding n_def items_def by (rule length_takeWhile_le)
    have tn: "take n rest = items"
      unfolding n_def items_def by (rule takeWhile_eq_take [symmetric])
    have lst: "last (l # items) = (l # rest) ! n"
    proof (cases "items = []")
      case True
      then show ?thesis by (simp add: n_def)
    next
      case False
      then have n0: "0 < n" by (simp add: n_def)
      have "last items = items ! (n - 1)" using False by (simp add: last_conv_nth n_def)
      also have "\<dots> = take n rest ! (n - 1)" by (simp only: tn)
      also have "\<dots> = rest ! (n - 1)" using n0 by simp
      finally show ?thesis using False n0 by (simp add: nth_Cons')
    qed
    have "last (l # items) = drop i lines ! n" using lst d by simp
    also have "\<dots> = lines ! (i + n)" using nl assms(1) by (simp add: rest_def)
    finally have pr: "prev_of lines i' = Some (last (l # items))"
      using e by (simp add: prev_of_def)
    have "pass_one p (l # rest) = blank_if (prev_nonblank p \<and> \<not> prev_item p) @ [l] @ items @
        blank_if (next_nonblank post) @ pass_one (Some (last (l # items))) post"
      using item by (simp add: pass_one.simps(2) items_def post_def)
    then show ?thesis
      unfolding d p_def [symmetric] di' pr using e
      by simp
  qed
qed

lemma main_loop_pass_one:
  "main_loop lines i fl = fl @ pass_one (prev_of lines i) (drop i lines)"
proof (induction lines i fl rule: main_loop.induct)
  case (1 lines i fl)
  show ?case
  proof (cases "i < length lines")
    case True
    obtain i' fl' where b: "loop_body lines i fl = (i', fl')" by force
    from "1" [OF True b [symmetric]]
    have "main_loop lines i' fl' = fl' @ pass_one (prev_of lines i') (drop i' lines)" by simp
    with True b show ?thesis
      using loop_body_pass_one [OF True b]
      by (subst main_loop.simps) simp
  next
    case False
    then show ?thesis by (subst main_loop.simps) simp
  qed
qed

lemma visits_main_loop:
  "visits lines i fl \<Longrightarrow> main_loop lines i fl = main_loop lines 0 []"
proof (induction rule: visits.induct)
  case start
  show ?case by simp
next
  case (step i fl i' fl')
  then show ?case by (subst (asm) main_loop.simps) simp
qed

lemma visits_pass_one:
  "visits lines i fl \<Longrightarrow>
   main_loop lines 0 [] = fl @ pass_one (prev_of lines i) (drop i lines)"
  using visits_main_loop [of lines i fl] main_loop_pass_one [of lines i fl] by simp

lemma first_pass_eq: "main_loop lines 0 [] = pass_one None lines"
  by (simp add: main_loop_pass_one prev_of_def)

lemma pass_one_heading:
  "is_heading line \<Longrightarrow>
   pass_one prev (line # rest) =
     blank_if (prev_nonblank prev) @ strip_colon line # blank_if (next_nonblank rest) @
       pass_one (Some line) rest"
  by (simp add: pass_one.simps(2))

lemma pass_one_plain:
  "\<not> is_heading line \<Longrightarrow> \<not> is_fence line \<Longrightarrow> \<not> is_list_item line \<Longrightarrow>
   pass_one prev (line # rest) = line # pass_one (Some line) rest"
  by (simp add: pass_one.simps(2))

lemma pass_one_item:
  "is_list_item line \<Longrightarrow>
   pass_one prev (line # rest) =
     blank_if (prev_nonblank prev \<and> \<not> prev_item prev) @ line # takeWhile in_list rest @
       blank_if (next_nonblank (dropWhile in_list rest)) @
       pass_one (Some (last (line # takeWhile in_list rest))) (dropWhile in_list rest)"
  using heading_not_list_item [of line] fence_not_list_item [of line]
  by (auto simp add: pass_one.simps(2))

lemma pass_one_fence:
  "is_fence line \<Longrightarrow>
   pass_one prev (line # rest) =
     blank_if (prev_nonblank prev) @ line # takeWhile in_block rest @
       (case dropWhile in_block rest of [] \<Rightarrow> []
        | c # post \<Rightarrow> c # blank_if (next_nonblank post) @ pass_one (Some c) post)"
  using heading_not_fence [of line]
  by (auto simp add: pass_one.simps(2))

lemma pass_one_fence_open:
  assumes "is_fence line" "dropWhile in_block rest = []"
  shows "pass_one prev (line # rest) = blank_if (prev_nonblank prev) @ line # rest"
proof -
  have "takeWhile in_block rest = rest"
    using assms(2) by (metis takeWhile_dropWhile_id append_Nil2)
  then show ?thesis
    unfolding pass_one_fence [OF assms(1)] assms(2) by simp
qed

lemma pass_one_fence_closed:
  assumes "is_fence line" "dropWhile in_block rest = c # post"
  shows "pass_one prev (line # rest) =
     blank_if (prev_nonblank prev) @ line # takeWhile in_block rest @
       c # blank_if (next_nonblank post) @ pass_one (Some c) post"
  unfolding pass_one_fence [OF assms(1)] assms(2) by simp

lemma line_cases [case_names heading fence item plain]:
  assumes "is_heading line \<Longrightarrow> P"
    and "\<not> is_heading line \<Longrightarrow> is_fence line \<Longrightarrow> \<not> is_list_item line \<Longrightarrow> P"
    and "\<not> is_heading line \<Longrightarrow> \<not> is_fence line \<Longrightarrow> is_list_item line \<Longrightarrow> P"
    and "\<not> is_heading line \<Longrightarrow> \<not> is_fence line \<Longrightarrow> \<not> is_list_item line \<Longrightarrow> P"
  shows P
  using assms fence_not_list_item [of line] by blast

subsection \<open>The second pass, splitting and joining\<close>

lemma collapse_append:
  "collapse b (xs @ ys) = collapse b xs @ collapse (if xs = [] then b else strip (last xs) = []) ys"
  by (induction xs arbitrary: b) auto

lemma collapse_snoc_nonblank:
  "strip x \<noteq> [] \<Longrightarrow> collapse b (xs @ x # ys) = collapse b xs @ x # collapse False ys"
  by (induction xs arbitrary: b) auto

lemma collapse_set: "set (collapse b xs) \<subseteq> set xs"
  by (induction xs arbitrary: b) auto

lemma collapse_filter:
  "filter (\<lambda>l. strip l \<noteq> []) (collapse b xs) = filter (\<lambda>l. strip l \<noteq> []) xs"
  by (induction xs arbitrary: b) auto

lemma collapse_True_hd: "collapse True xs = y # ys \<Longrightarrow> strip y \<noteq> []"
  by (induction xs) (auto split: if_splits)

lemma collapse_no_double_blank: "no_double_blank (collapse b xs)"
proof (induction xs arbitrary: b)
  case Nil
  show ?case by simp
next
  case (Cons x xs)
  show ?case
  proof (cases "strip x = []")
    case True
    show ?thesis
    proof (cases "collapse True xs")
      case Nil
      with True show ?thesis by (cases b) simp_all
    next
      case (Cons y ys)
      then have "strip y \<noteq> []" by (rule collapse_True_hd)
      with True Cons Cons.IH [of True] show ?thesis by (cases b) simp_all
    qed
  next
    case False
    with Cons.IH [of False] show ?thesis
      by (cases "collapse False xs") simp_all
  qed
qed

lemma collapse_fixed:
  "no_double_blank ys \<Longrightarrow> (b \<Longrightarrow> ys \<noteq> [] \<Longrightarrow> strip (hd ys) \<noteq> []) \<Longrightarrow> collapse b ys = ys"
proof (induction ys arbitrary: b)
  case Nil
  show ?case by simp
next
  case (Cons y ys)
  have t: "no_double_blank ys" using Cons.prems(1) by (cases ys) simp_all
  show ?case
  proof (cases "strip y = []")
    case True
    then have nb: "\<not> b" using Cons.prems(2) by auto
    have "collapse True ys = ys"
    proof (rule Cons.IH [OF t])
      assume "ys \<noteq> []"
      then show "strip (hd ys) \<noteq> []" using Cons.prems(1) True by (cases ys) simp_all
    qed
    with True nb show ?thesis by simp
  next
    case False
    have "collapse False ys = ys" by (rule Cons.IH [OF t]) simp
    with False show ?thesis by simp
  qed
qed

lemma collapse_idem: "collapse b (collapse b xs) = collapse b xs"
proof (rule collapse_fixed [OF collapse_no_double_blank])
  assume "b" "collapse b xs \<noteq> []"
  then show "strip (hd (collapse b xs)) \<noteq> []"
    using collapse_True_hd [of xs] by (cases "collapse b xs") auto
qed

lemma no_double_blank_nth:
  "no_double_blank xs \<Longrightarrow> Suc k < length xs \<Longrightarrow> \<not> (strip (xs ! k) = [] \<and> strip (xs ! Suc k) = [])"
proof (induction xs arbitrary: k rule: no_double_blank.induct)
  case 1
  then show ?case by simp
next
  case (2 x)
  then show ?case by simp
next
  case (3 x y zs)
  show ?case
  proof (cases k)
    case 0
    with "3.prems" show ?thesis by simp
  next
    case (Suc k')
    with "3.prems" "3.IH" [of k'] show ?thesis by simp
  qed
qed

lemma collapse_False_Nil: "collapse False xs = [] \<longleftrightarrow> xs = []"
  by (cases xs) auto

lemma split_nl_nonempty: "split_nl s \<noteq> []"
  by (induction s) (auto split: list.splits)

lemma split_nl_no_newline: "l \<in> set (split_nl s) \<Longrightarrow> CHR 0x0A \<notin> set l"
  by (induction s arbitrary: l) (auto split: list.splits if_splits)

lemma split_nl_plain: "CHR 0x0A \<notin> set l \<Longrightarrow> split_nl l = [l]"
  by (induction l) auto

lemma split_nl_line: "CHR 0x0A \<notin> set l \<Longrightarrow> split_nl (l @ CHR 0x0A # s) = l # split_nl s"
  by (induction l) auto

lemma split_join:
  "ls \<noteq> [] \<Longrightarrow> \<forall>l\<in>set ls. CHR 0x0A \<notin> set l \<Longrightarrow> split_nl (join_nl ls) = ls"
proof (induction ls rule: join_nl.induct)
  case 1
  then show ?case by simp
next
  case (2 l)
  then show ?case by (simp add: split_nl_plain)
next
  case (3 l v va)
  then show ?case by (simp add: split_nl_line)
qed

lemma pass_one_nonempty: "xs \<noteq> [] \<Longrightarrow> pass_one p xs \<noteq> []"
  by (cases xs) (auto simp: pass_one.simps(2) split: list.splits)

lemma pass_one_chars:
  "\<forall>l\<in>set xs. c \<notin> set l \<Longrightarrow> \<forall>l\<in>set (pass_one p xs). c \<notin> set l"
proof (induction p xs rule: pass_one.induct)
  case (1 prev)
  show ?case by simp
next
  case (2 prev line rest)
  have sc: "c \<notin> set (strip_colon line)"
    using "2.prems" strip_colon_set [of line] by auto
  have tk: "\<forall>l\<in>set (takeWhile P rest). c \<notin> set l" for P
    using "2.prems" by (auto dest: set_takeWhileD)
  have dr: "\<forall>l\<in>set (dropWhile P rest). c \<notin> set l" for P
    using "2.prems" set_dropWhileD by fastforce
  show ?case
  proof (cases line rule: line_cases)
    case heading
    with "2.IH"(1) "2.prems" sc show ?thesis
      by (auto simp: pass_one_heading blank_if_def)
  next
    case plain
    with "2.IH"(4) "2.prems" show ?thesis
      by (auto simp: pass_one_plain)
  next
    case fence
    show ?thesis
    proof (cases "dropWhile in_block rest")
      case Nil
      show ?thesis
        unfolding pass_one_fence_open [OF fence(2) Nil]
        using "2.prems" by (auto simp: blank_if_def)
    next
      case (Cons x post)
      have "\<forall>l\<in>set (x # post). c \<notin> set l" using dr [of in_block] Cons by simp
      then have "\<forall>l\<in>set (pass_one (Some x) post). c \<notin> set l" "c \<notin> set x"
        using "2.IH"(2) [OF fence(1,2) Cons] by simp_all
      then show ?thesis
        unfolding pass_one_fence_closed [OF fence(2) Cons]
        using "2.prems" tk [of in_block] by (auto simp: blank_if_def)
    qed
  next
    case item
    have "\<forall>l\<in>set (pass_one (Some (last (line # takeWhile in_list rest))) (dropWhile in_list rest)).
        c \<notin> set l"
      using "2.IH"(3) [OF item] dr [of in_list] by simp
    then show ?thesis
      unfolding pass_one_item [OF item(3)]
      using "2.prems" tk [of in_list] by (auto simp: blank_if_def)
  qed
qed

lemma formatted_lines:
  "split_nl (fix_markdown_formatting content) = collapse False (pass_one None (split_nl content))"
proof -
  let ?r = "collapse False (pass_one None (split_nl content))"
  have "\<forall>l\<in>set (pass_one None (split_nl content)). CHR 0x0A \<notin> set l"
    by (rule pass_one_chars) (simp add: split_nl_no_newline)
  then have a: "\<forall>l\<in>set ?r. CHR 0x0A \<notin> set l"
    using collapse_set [of False "pass_one None (split_nl content)"] by blast
  have b: "?r \<noteq> []"
    by (simp add: collapse_False_Nil pass_one_nonempty split_nl_nonempty)
  have "fix_markdown_formatting content = join_nl ?r"
    by (simp add: fix_markdown_formatting_def first_pass_eq remove_consecutive_empty_collapse)
  then show ?thesis using split_join [OF b a] by simp
qed

subsection \<open>The lines the main loop processes\<close>

lemma loop_body_eq:
  assumes "i < length lines"
  shows "loop_body lines i fl = (next_index lines i, fl @ block_out lines i)"
proof (cases "lines ! i" rule: line_cases)
  case heading
  show ?thesis
    unfolding next_index_def block_out_def loop_body_heading [OF assms heading] by simp
next
  case fence
  show ?thesis
    unfolding next_index_def block_out_def loop_body_fence [OF assms fence(2)] by simp
next
  case item
  show ?thesis
    unfolding next_index_def block_out_def loop_body_list [OF assms item(3)] by simp
next
  case plain
  show ?thesis
    unfolding next_index_def block_out_def loop_body_plain [OF assms plain] by simp
qed

lemma nonblank_blank_if [simp]: "nonblank (blank_if b) = []"
  by (simp add: blank_if_def)

lemma block_out_heading:
  "i < length lines \<Longrightarrow> is_heading (lines ! i) \<Longrightarrow>
   next_index lines i = Suc i \<and>
   block_out lines i = blank_if (prev_nonblank (prev_of lines i)) @ [strip_colon (lines ! i)] @
               blank_if (next_nonblank (drop (Suc i) lines))"
  unfolding next_index_def block_out_def by (simp add: loop_body_heading)

lemma block_out_plain:
  "i < length lines \<Longrightarrow> \<not> is_heading (lines ! i) \<Longrightarrow> \<not> is_fence (lines ! i) \<Longrightarrow>
   \<not> is_list_item (lines ! i) \<Longrightarrow>
   next_index lines i = Suc i \<and> block_out lines i = [lines ! i]"
  unfolding next_index_def block_out_def by (simp add: loop_body_plain)

lemma block_out_fence:
  "i < length lines \<Longrightarrow> is_fence (lines ! i) \<Longrightarrow>
   next_index lines i = Suc (Suc i + length (takeWhile in_block (drop (Suc i) lines))) \<and>
   block_out lines i = blank_if (prev_nonblank (prev_of lines i)) @ [lines ! i] @
        take (Suc (length (takeWhile in_block (drop (Suc i) lines)))) (drop (Suc i) lines) @
        blank_if (next_nonblank
          (drop (Suc (length (takeWhile in_block (drop (Suc i) lines)))) (drop (Suc i) lines)))"
  unfolding next_index_def block_out_def by (simp add: loop_body_fence)

lemma block_out_list:
  "i < length lines \<Longrightarrow> is_list_item (lines ! i) \<Longrightarrow>
   next_index lines i = Suc (i + length (takeWhile in_list (drop (Suc i) lines))) \<and>
   block_out lines i =
     blank_if (prev_nonblank (prev_of lines i) \<and> \<not> prev_item (prev_of lines i)) @
        [lines ! i] @ takeWhile in_list (drop (Suc i) lines) @
        blank_if (next_nonblank (dropWhile in_list (drop (Suc i) lines)))"
  unfolding next_index_def block_out_def by (simp add: loop_body_list)

lemma next_index_gt: "i < length lines \<Longrightarrow> i < next_index lines i"
proof (cases "lines ! i" rule: line_cases)
  case heading
  assume "i < length lines"
  from block_out_heading [OF this heading] show ?thesis by simp
next
  case fence
  assume "i < length lines"
  from block_out_fence [OF this fence(2)] show ?thesis by simp
next
  case item
  assume "i < length lines"
  from block_out_list [OF this item(3)] show ?thesis by simp
next
  case plain
  assume "i < length lines"
  from block_out_plain [OF this plain] show ?thesis by simp
qed

lemma visits_cases:
  assumes "visits lines a fl"
  obtains (start) "a = 0" "fl = []"
  | (step) a0 fl0 where "visits lines a0 fl0" "a0 < length lines" "a = next_index lines a0"
      "fl = fl0 @ block_out lines a0"
  using assms
proof (cases rule: visits.cases)
  case start
  then show ?thesis using that(1) by simp
next
  case (step i fixed_lines)
  then show ?thesis using that(2) [of i fixed_lines] loop_body_eq [of i lines fixed_lines] by simp
qed

lemma visited_order:
  "visited lines a \<Longrightarrow> visited lines b \<Longrightarrow> b < length lines \<Longrightarrow> b < a \<Longrightarrow>
   next_index lines b \<le> a"
proof (induction a arbitrary: b rule: less_induct)
  case (less a)
  from less.prems(1) obtain fl where "visits lines a fl" by (auto simp: visited_def)
  then show ?case
  proof (cases rule: visits_cases)
    case start
    with less.prems show ?thesis by simp
  next
    case (step a0 fl0)
    have va0: "visited lines a0" using step(1) by (auto simp: visited_def)
    have lt: "a0 < a" using step(3) next_index_gt [OF step(2)] by simp
    consider "b = a0" | "b < a0" | "a0 < b" by linarith
    then show ?thesis
    proof cases
      case 1
      then show ?thesis using step(3) by simp
    next
      case 2
      have "next_index lines b \<le> a0"
        by (rule less.IH [OF lt va0 less.prems(2,3) 2])
      then show ?thesis using lt by simp
    next
      case 3
      have "next_index lines a0 \<le> b"
        by (rule less.IH [OF less.prems(4) less.prems(2) va0 step(2) 3])
      then show ?thesis using step(3) less.prems(4) by simp
    qed
  qed
qed

lemma inside_block_not_visited:
  "visited lines i \<Longrightarrow> i < length lines \<Longrightarrow> i < k \<Longrightarrow> k < next_index lines i \<Longrightarrow>
   \<not> visited lines k"
  using visited_order [of lines k i] by auto

lemma map_nth_upt_take_drop:
  "map (\<lambda>k. xs ! k) [a..<min b (length xs)] = take (b - a) (drop a xs)"
proof (rule nth_equalityI)
  show "length (map (\<lambda>k. xs ! k) [a..<min b (length xs)]) = length (take (b - a) (drop a xs))"
    by (auto simp: min_def)
next
  fix j assume "j < length (map (\<lambda>k. xs ! k) [a..<min b (length xs)])"
  then have j: "j < min b (length xs) - a" by simp
  then have "map (\<lambda>k. xs ! k) [a..<min b (length xs)] ! j = xs ! (a + j)"
    by (rule nth_map_upt)
  moreover have "take (b - a) (drop a xs) ! j = xs ! (a + j)"
    using j by simp
  ultimately show "map (\<lambda>k. xs ! k) [a..<min b (length xs)] ! j = take (b - a) (drop a xs) ! j"
    by simp
qed

lemma first_pass_line_inside:
  assumes "visited lines i" "i < length lines"
  shows "map (first_pass_line lines) [Suc i..<min (next_index lines i) (length lines)]
       = take (next_index lines i - Suc i) (drop (Suc i) lines)"
proof -
  let ?m = "min (next_index lines i) (length lines)"
  have "map (first_pass_line lines) [Suc i..<?m] = map (\<lambda>k. lines ! k) [Suc i..<?m]"
  proof (rule map_cong [OF refl])
    fix k assume "k \<in> set [Suc i..<?m]"
    then have "i < k" "k < next_index lines i" by auto
    then have "\<not> visited lines k" by (rule inside_block_not_visited [OF assms])
    then show "first_pass_line lines k = lines ! k" by (simp add: first_pass_line_def)
  qed
  also have "\<dots> = take (next_index lines i - Suc i) (drop (Suc i) lines)"
    by (rule map_nth_upt_take_drop)
  finally show ?thesis .
qed

lemma block_out_nonblank:
  assumes "visited lines i" "i < length lines"
  shows "nonblank (block_out lines i)
       = nonblank (map (first_pass_line lines) [i..<min (next_index lines i) (length lines)])"
proof -
  let ?m = "min (next_index lines i) (length lines)"
  have "i < ?m" using assms(2) next_index_gt [OF assms(2)] by simp
  then have u: "[i..<?m] = i # [Suc i..<?m]" by (rule upt_conv_Cons)
  note ins = first_pass_line_inside [OF assms]
  show ?thesis
  proof (cases "lines ! i" rule: line_cases)
    case heading
    then show ?thesis
      using block_out_heading [OF assms(2) heading] assms
      unfolding u by (simp add: first_pass_line_def min_def)
  next
    case plain
    then show ?thesis
      using block_out_plain [OF assms(2) plain] assms
      unfolding u by (simp add: first_pass_line_def min_def)
  next
    case fence
    then show ?thesis
      using block_out_fence [OF assms(2) fence(2)] ins
      unfolding u by (simp add: first_pass_line_def)
  next
    case item
    have "takeWhile in_list (drop (Suc i) lines)
        = take (length (takeWhile in_list (drop (Suc i) lines))) (drop (Suc i) lines)"
      by (rule takeWhile_eq_take)
    then show ?thesis
      using block_out_list [OF assms(2) item(3)] ins item
      unfolding u by (simp add: first_pass_line_def)
  qed
qed

lemma visits_nonblank:
  "visits lines i fl \<Longrightarrow>
   nonblank fl = nonblank (map (first_pass_line lines) [0..<min i (length lines)])"
proof (induction rule: visits.induct)
  case start
  show ?case by simp
next
  case (step i fl i' fl')
  have e: "i' = next_index lines i" "fl' = fl @ block_out lines i"
    using step(3) loop_body_eq [OF step(2), of fl] by simp_all
  have v: "visited lines i" using step(1) by (auto simp: visited_def)
  let ?m = "min i' (length lines)"
  have "i \<le> ?m" using step(2) next_index_gt [OF step(2)] e by simp
  then have "[0..<?m] = [0..<i] @ [i..<?m]"
    by (metis upt_add_eq_append le0 le_Suc_ex)
  then show ?case
    using step.IH step(2) block_out_nonblank [OF v step(2)] e by (simp add: min_def)
qed

lemma main_loop_final:
  "visits lines i fl \<Longrightarrow>
   \<exists>i' fl'. visits lines i' fl' \<and> length lines \<le> i' \<and> main_loop lines i fl = fl'"
proof (induction lines i fl rule: main_loop.induct)
  case (1 lines i fl)
  show ?case
  proof (cases "i < length lines")
    case True
    obtain i' fl' where b: "loop_body lines i fl = (i', fl')" by force
    have "visits lines i' fl'" using "1.prems" True b by (rule visits.step)
    from "1.IH" [OF True b [symmetric] this] True b show ?thesis
      by (subst main_loop.simps) simp
  next
    case False
    with "1.prems" show ?thesis
      by (subst main_loop.simps) auto
  qed
qed

lemma first_pass_nonblank:
  "nonblank (main_loop lines 0 []) = nonblank (map (first_pass_line lines) [0..<length lines])"
proof -
  obtain i' fl' where "visits lines i' fl'" "length lines \<le> i'" "main_loop lines 0 [] = fl'"
    using main_loop_final [OF visits.start, of lines] by blast
  then show ?thesis using visits_nonblank [of lines i' fl'] by (simp add: min_def)
qed

lemma formatted_nonblank:
  "nonblank (split_nl (fix_markdown_formatting content))
     = nonblank (map (first_pass_line (split_nl content)) [0..<length (split_nl content)])"
  unfolding formatted_lines collapse_filter first_pass_eq [symmetric]
  by (rule first_pass_nonblank)

subsection \<open>Around a heading\<close>

lemma last_takeWhile_nth:
  "last (l # takeWhile P rest) = (l # rest) ! length (takeWhile P rest)"
proof (cases "takeWhile P rest = []")
  case True
  then show ?thesis by simp
next
  case False
  let ?items = "takeWhile P rest"
  let ?n = "length ?items"
  have n0: "0 < ?n" using False by simp
  have "last ?items = ?items ! (?n - 1)" using False by (simp add: last_conv_nth)
  also have "\<dots> = rest ! (?n - 1)" using n0 by (intro takeWhile_nth) simp
  finally show ?thesis using False n0 by (simp add: nth_Cons')
qed

lemma blank_plain:
  "strip l = [] \<Longrightarrow> \<not> is_heading l \<and> \<not> is_fence l \<and> \<not> is_list_item l"
  using heading_nonblank fence_nonblank list_item_nonblank by blast

lemma closing_fence_nonblank: "is_closing_fence l \<Longrightarrow> strip l \<noteq> []"
  by (simp add: is_closing_fence_fence fence_nonblank)

lemma visits_last:
  assumes "visits lines i fl" "0 < i" "i \<le> length lines"
  shows "fl \<noteq> [] \<and> (strip (lines ! (i - 1)) = [] \<longrightarrow> strip (last fl) = [])"
  using assms(1)
proof (cases rule: visits_cases)
  case start
  with assms(2) show ?thesis by simp
next
  case (step a fl0)
  define rest where "rest = drop (Suc a) lines"
  have d: "drop a lines = lines ! a # rest"
    using step(2) by (simp add: Cons_nth_drop_Suc rest_def)
  show ?thesis
  proof (cases "lines ! a" rule: line_cases)
    case heading
    then show ?thesis
      using block_out_heading [OF step(2) heading] step(3,4) heading_nonblank [OF heading]
      by simp
  next
    case plain
    then show ?thesis
      using block_out_plain [OF step(2) plain] step(3,4) by simp
  next
    case fence
    define n where "n = length (takeWhile in_block rest)"
    have i: "i = Suc (Suc a + n)" and ne: "fl \<noteq> []"
      using block_out_fence [OF step(2) fence(2)] step(3,4) by (simp_all add: n_def rest_def)
    have "n < length rest" using i assms(3) by (simp add: rest_def)
    then have "\<not> in_block (rest ! n)"
      unfolding n_def by (rule nth_length_takeWhile)
    moreover have "rest ! n = lines ! (i - 1)"
      using i assms(3) by (simp add: rest_def add.commute)
    ultimately have "strip (lines ! (i - 1)) \<noteq> []"
      by (simp add: in_block_def closing_fence_nonblank)
    with ne show ?thesis by simp
  next
    case item
    define n where "n = length (takeWhile in_list rest)"
    define nbk where "nbk = blank_if (next_nonblank (dropWhile in_list rest))"
    have i: "i = Suc (a + n)"
      and fl: "fl = fl0 @ blank_if (prev_nonblank (prev_of lines a) \<and> \<not> prev_item (prev_of lines a)) @
        [lines ! a] @ takeWhile in_list rest @ nbk"
      using block_out_list [OF step(2) item(3)] step(3,4) by (simp_all add: n_def rest_def nbk_def)
    have "n \<le> length rest" unfolding n_def by (rule length_takeWhile_le)
    then have "drop a lines ! n = lines ! (i - 1)" using i step(2) by simp
    then have l: "last (lines ! a # takeWhile in_list rest) = lines ! (i - 1)"
      using last_takeWhile_nth [of "lines ! a" in_list rest] by (simp add: d n_def)
    have "nbk = [] \<or> nbk = [[]]" by (auto simp: nbk_def blank_if_def)
    then show ?thesis
    proof
      assume "nbk = []"
      then have "last fl = last (lines ! a # takeWhile in_list rest)"
        unfolding fl by simp
      with l show ?thesis by (simp add: fl)
    next
      assume "nbk = [[]]"
      then have "last fl = []" unfolding fl by simp
      then show ?thesis by (simp add: fl)
    qed
  qed
qed

lemma collapse_last_blank:
  "xs \<noteq> [] \<Longrightarrow> strip (last xs) = [] \<Longrightarrow>
   collapse False xs \<noteq> [] \<and> strip (last (collapse False xs)) = []"
proof (induction xs rule: rev_induct)
  case Nil
  then show ?case by simp
next
  case (snoc z ys)
  then have z: "strip z = []" by simp
  show ?case
  proof (cases "ys = []")
    case True
    with z show ?thesis by simp
  next
    case False
    show ?thesis
    proof (cases "strip (last ys) = []")
      case True
      with False z have "collapse False (ys @ [z]) = collapse False ys"
        by (simp add: collapse_append)
      with snoc.IH [OF False True] show ?thesis by simp
    next
      case b: False
      with False z have "collapse False (ys @ [z]) = collapse False ys @ [z]"
        by (simp add: collapse_append)
      with z show ?thesis by simp
    qed
  qed
qed

lemma collapse_snoc_blank:
  "xs \<noteq> [] \<Longrightarrow> strip (last xs) = [] \<Longrightarrow> collapse False (xs @ [[]]) = collapse False xs"
  by (simp add: collapse_append)

lemma no_double_blank_snoc:
  "no_double_blank (xs @ [b]) \<Longrightarrow> strip b = [] \<Longrightarrow> xs = [] \<or> strip (last xs) \<noteq> []"
proof (induction xs rule: no_double_blank.induct)
  case 1
  then show ?case by simp
next
  case (2 x)
  then show ?case by simp
next
  case (3 x y zs)
  then show ?case by simp
qed

lemma collapse_True_front: "collapse True xs = [] \<or> strip (hd (collapse True xs)) \<noteq> []"
  using collapse_True_hd [of xs] by (cases "collapse True xs") auto

lemma visits_output:
  "visits (split_nl content) i fl \<Longrightarrow>
   split_nl (fix_markdown_formatting content)
     = collapse False (fl @ pass_one (prev_of (split_nl content) i) (drop i (split_nl content)))"
  unfolding formatted_lines first_pass_eq [symmetric] by (simp add: visits_pass_one)

lemma heading_isolated_lines:
  assumes v: "visits lines i fl" and i: "0 < i" "Suc i < length lines"
    and h: "is_heading (lines ! i)"
  shows "\<exists>X b1 b2 Y.
     collapse False (fl @ pass_one (prev_of lines i) (drop i lines))
       = X @ [b1, strip_colon (lines ! i), b2] @ Y
     \<and> strip b1 = [] \<and> strip b2 = []
     \<and> (X = [] \<or> strip (last X) \<noteq> []) \<and> (Y = [] \<or> strip (hd Y) \<noteq> [])
     \<and> X @ [b1] = collapse False (fl @ [[]])"
proof -
  define p where "p = prev_of lines i"
  define r where "r = lines ! Suc i"
  define rs where "rs = drop (Suc (Suc i)) lines"
  define pb where "pb = blank_if (prev_nonblank p)"
  have d: "drop i lines = lines ! i # r # rs"
    using i(2) by (simp add: Cons_nth_drop_Suc [symmetric] r_def rs_def)
  have hn: "strip (strip_colon (lines ! i)) \<noteq> []"
    using h by (intro heading_nonblank is_heading_strip_colon)
  from visits_last [OF v i(1)] i(2)
  have fl: "fl \<noteq> []" "strip (lines ! (i - 1)) = [] \<Longrightarrow> strip (last fl) = []" by simp_all
  have pn: "prev_nonblank p = (strip (lines ! (i - 1)) \<noteq> [])"
    using i(1) by (simp add: p_def prev_nonblank_prev_of)
  have A: "fl @ pb \<noteq> []" "strip (last (fl @ pb)) = []"
    using fl pn by (auto simp: pb_def blank_if_def)
  have A': "collapse False (fl @ pb) = collapse False (fl @ [[]])"
  proof (cases "prev_nonblank p")
    case True
    then show ?thesis by (simp add: pb_def)
  next
    case False
    with pn fl have "strip (last fl) = []" by simp
    with fl(1) False show ?thesis by (simp add: pb_def collapse_snoc_blank)
  qed
  from collapse_last_blank [OF A] obtain X b1 where
    X: "collapse False (fl @ pb) = X @ [b1]" and b1: "strip b1 = []"
    by (metis append_butlast_last_id)
  have "no_double_blank (X @ [b1])"
    using collapse_no_double_blank [of False "fl @ pb"] X by simp
  then have Xl: "X = [] \<or> strip (last X) \<noteq> []"
    using b1 by (rule no_double_blank_snoc)
  have "\<exists>b2 Y. collapse False (blank_if (next_nonblank (r # rs)) @ pass_one (Some (lines ! i)) (r # rs))
      = b2 # Y \<and> strip b2 = [] \<and> (Y = [] \<or> strip (hd Y) \<noteq> [])"
  proof (cases "strip r = []")
    case True
    then have "pass_one (Some (lines ! i)) (r # rs) = r # pass_one (Some r) rs"
      using blank_plain [OF True] by (simp add: pass_one_plain)
    with True have "collapse False
        (blank_if (next_nonblank (r # rs)) @ pass_one (Some (lines ! i)) (r # rs))
      = r # collapse True (pass_one (Some r) rs)"
      by (simp add: next_nonblank_def)
    with True collapse_True_front show ?thesis by blast
  next
    case False
    then have "collapse False
        (blank_if (next_nonblank (r # rs)) @ pass_one (Some (lines ! i)) (r # rs))
      = [] # collapse True (pass_one (Some (lines ! i)) (r # rs))"
      by (simp add: next_nonblank_def)
    with collapse_True_front show ?thesis by force
  qed
  then obtain b2 Y where
    Y: "collapse False (blank_if (next_nonblank (r # rs)) @ pass_one (Some (lines ! i)) (r # rs))
      = b2 # Y" and b2: "strip b2 = []" and Yh: "Y = [] \<or> strip (hd Y) \<noteq> []"
    by blast
  have "fl @ pass_one p (drop i lines)
      = (fl @ pb) @ strip_colon (lines ! i) #
        (blank_if (next_nonblank (r # rs)) @ pass_one (Some (lines ! i)) (r # rs))"
    unfolding d pass_one_heading [OF h] pb_def by simp
  then have "collapse False (fl @ pass_one p (drop i lines))
      = X @ [b1, strip_colon (lines ! i), b2] @ Y"
    using collapse_snoc_nonblank [OF hn, of False "fl @ pb"] X Y by simp
  then show ?thesis
    unfolding p_def using b1 b2 Xl Yh X A' by auto
qed

subsection \<open>Around a code block, and colons\<close>

lemma prev_of_length:
  "prev_of (pre @ xs) (length pre) = (if pre = [] then None else Some (last pre))"
  by (auto simp: prev_of_def nth_append last_conv_nth)

lemma prev_nonblank_length:
  "prev_nonblank (prev_of (pre @ xs) (length pre)) = (pre \<noteq> [] \<and> strip (last pre) \<noteq> [])"
  by (simp add: prev_of_length prev_nonblank_def)

lemma fl_blank_if: "fl @ blank_if b = (if b then fl @ [[]] else fl)"
  by (simp add: blank_if_def)

lemma no_double_blank_nthI:
  "(\<And>k. Suc k < length xs \<Longrightarrow> \<not> (strip (xs ! k) = [] \<and> strip (xs ! Suc k) = [])) \<Longrightarrow>
   no_double_blank xs"
proof (induction xs rule: no_double_blank.induct)
  case 1
  show ?case by simp
next
  case (2 x)
  show ?case by simp
next
  case (3 x y zs)
  have "\<not> (strip x = [] \<and> strip y = [])" using "3.prems" [of 0] by simp
  moreover have "no_double_blank (y # zs)"
  proof (rule "3.IH")
    fix k assume "Suc k < length (y # zs)"
    then show "\<not> (strip ((y # zs) ! k) = [] \<and> strip ((y # zs) ! Suc k) = [])"
      using "3.prems" [of "Suc k"] by simp
  qed
  ultimately show ?case by simp
qed

lemma closed_block_lines:
  assumes "lines = pre @ [f] @ body @ [c] @ post" "is_fence f"
    "\<forall>l\<in>set body. \<not> is_closing_fence l" "is_closing_fence c"
  shows "\<exists>Y. collapse False (fl @ pass_one (prev_of lines (length pre)) (drop (length pre) lines))
     = collapse False (if pre \<noteq> [] \<and> strip (last pre) \<noteq> [] then fl @ [[]] else fl) @
       [f] @ collapse False body @ [c] @ Y"
proof -
  define p where "p = prev_of lines (length pre)"
  have pn: "prev_nonblank p = (pre \<noteq> [] \<and> strip (last pre) \<noteq> [])"
    unfolding p_def assms(1) by (rule prev_nonblank_length)
  have d: "drop (length pre) lines = f # (body @ c # post)"
    by (simp add: assms(1))
  have t: "takeWhile in_block (body @ c # post) = body"
    using assms(3,4) by (simp add: in_block_def)
  have dw: "dropWhile in_block (body @ c # post) = c # post"
    using assms(3,4) by (simp add: in_block_def)
  have fn: "strip f \<noteq> []" "strip c \<noteq> []"
    using assms(2,4) by (simp_all add: fence_nonblank closing_fence_nonblank)
  have e: "fl @ pass_one p (drop (length pre) lines)
      = (fl @ blank_if (prev_nonblank p)) @ f # (body @ c #
          (blank_if (next_nonblank post) @ pass_one (Some c) post))"
    unfolding d pass_one_fence_closed [OF assms(2) dw] t by simp
  have "collapse False (fl @ pass_one p (drop (length pre) lines))
      = collapse False (fl @ blank_if (prev_nonblank p)) @ [f] @ collapse False body @ [c] @
          collapse False (blank_if (next_nonblank post) @ pass_one (Some c) post)"
    unfolding e collapse_snoc_nonblank [OF fn(1)] collapse_snoc_nonblank [OF fn(2)] by simp
  then show ?thesis
    unfolding p_def [symmetric] fl_blank_if pn by blast
qed

lemma open_block_lines:
  assumes "lines = pre @ [f] @ rest" "is_fence f" "\<forall>l\<in>set rest. \<not> is_closing_fence l"
  shows "fl @ pass_one (prev_of lines (length pre)) (drop (length pre) lines)
     = (if pre \<noteq> [] \<and> strip (last pre) \<noteq> [] then fl @ [[]] else fl) @ [f] @ rest"
proof -
  define p where "p = prev_of lines (length pre)"
  have pn: "prev_nonblank p = (pre \<noteq> [] \<and> strip (last pre) \<noteq> [])"
    unfolding p_def assms(1) by (rule prev_nonblank_length)
  have d: "drop (length pre) lines = f # rest"
    by (simp add: assms(1))
  have dw: "dropWhile in_block rest = []"
    using assms(3) by (simp add: in_block_def)
  have "fl @ pass_one p (drop (length pre) lines) = (fl @ blank_if (prev_nonblank p)) @ [f] @ rest"
    unfolding d pass_one_fence_open [OF assms(2) dw] by simp
  then show ?thesis
    unfolding p_def [symmetric] fl_blank_if pn .
qed

lemma first_pass_line_blank:
  "i < length lines \<Longrightarrow> (strip (first_pass_line lines i) = []) = (strip (lines ! i) = [])"
  using heading_nonblank [of "lines ! i"] heading_nonblank [OF is_heading_strip_colon, of "lines ! i"]
  by (auto simp: first_pass_line_def)

lemma nonblank_nth:
  assumes "i < length xs" "strip (xs ! i) \<noteq> []"
  shows "nonblank xs ! length (nonblank (take i xs)) = xs ! i"
proof -
  have "xs = take i xs @ xs ! i # drop (Suc i) xs"
    using assms(1) by (rule id_take_nth_drop)
  then have "nonblank xs = nonblank (take i xs @ xs ! i # drop (Suc i) xs)"
    by (rule arg_cong)
  also have "\<dots> = nonblank (take i xs) @ xs ! i # nonblank (drop (Suc i) xs)"
    using assms(2) by simp
  finally have e: "nonblank xs = nonblank (take i xs) @ xs ! i # nonblank (drop (Suc i) xs)" .
  show ?thesis by (subst e) (simp add: nth_append)
qed

lemma nonblank_length_first_pass:
  assumes "i \<le> length lines"
  shows "length (nonblank (take i (map (first_pass_line lines) [0..<length lines])))
       = length (nonblank (take i lines))"
proof -
  have a: "take i (map (first_pass_line lines) [0..<length lines])
      = map (first_pass_line lines) [0..<i]"
    using assms by (simp add: take_map)
  have "take i lines = take i (map (\<lambda>k. lines ! k) [0..<length lines])"
    by (simp add: map_nth)
  then have b: "take i lines = map (\<lambda>k. lines ! k) [0..<i]"
    using assms by (simp add: take_map)
  have "length (nonblank (map (first_pass_line lines) [0..<i]))
      = length (filter (\<lambda>k. strip (first_pass_line lines k) \<noteq> []) [0..<i])"
    by (simp add: filter_map comp_def)
  also have "\<dots> = length (filter (\<lambda>k. strip (lines ! k) \<noteq> []) [0..<i])"
    using assms by (intro arg_cong [where f = length] filter_cong refl)
      (simp add: first_pass_line_blank)
  also have "\<dots> = length (nonblank (map (\<lambda>k. lines ! k) [0..<i]))"
    by (simp add: filter_map comp_def)
  finally show ?thesis unfolding a b .
qed

lemma colon_line_image:
  assumes "i < length (split_nl content)" "split_nl content ! i = s @ '':''"
  shows "nonblank (split_nl (fix_markdown_formatting content))
           ! length (nonblank (take i (split_nl content)))
       = (if visited (split_nl content) i \<and> is_heading (split_nl content ! i)
          then s else s @ '':'')"
proof -
  define lines where "lines = split_nl content"
  define M where "M = map (first_pass_line lines) [0..<length lines]"
  have i: "i < length lines" and l: "lines ! i = s @ '':''"
    using assms by (simp_all add: lines_def)
  have nb: "strip (lines ! i) \<noteq> []"
    unfolding l by (auto simp: strip_eq_Nil isspace_def)
  have Mi: "M ! i = first_pass_line lines i" using i by (simp add: M_def)
  then have Mnb: "strip (M ! i) \<noteq> []" using nb i by (simp add: first_pass_line_blank)
  have "nonblank M ! length (nonblank (take i M)) = M ! i"
    using i Mnb by (intro nonblank_nth) (simp add: M_def)
  moreover have "length (nonblank (take i M)) = length (nonblank (take i lines))"
    unfolding M_def using i by (intro nonblank_length_first_pass) simp
  moreover have "nonblank (split_nl (fix_markdown_formatting content)) = nonblank M"
    unfolding M_def lines_def by (rule formatted_nonblank)
  moreover have "strip_colon (s @ '':'') = s" by (simp add: strip_colon_def)
  ultimately show ?thesis
    unfolding lines_def [symmetric] using Mi l by (simp add: first_pass_line_def)
qed

subsection \<open>A second run\<close>

lemma fence_not_continuation: "is_fence l \<Longrightarrow> \<not> is_continuation l"
  using is_fence_hd [of l] is_continuation_hd [of l] by auto

lemma list_item_not_continuation: "is_list_item l \<Longrightarrow> \<not> is_continuation l"
  using is_list_item_hd [of l] is_continuation_hd [of l] by auto

lemma not_in_list_Nil: "\<not> in_list []"
  by (simp add: in_list_def is_list_item_def is_continuation_def)

lemma strip_colon_twice:
  assumes "\<not> double_colon l"
  shows "strip_colon (strip_colon l) = strip_colon l"
proof (cases "l \<noteq> [] \<and> last l = CHR '':''")
  case False
  then show ?thesis by (auto simp: strip_colon_def)
next
  case True
  have "\<not> (butlast l \<noteq> [] \<and> last (butlast l) = CHR '':'')"
  proof
    assume a: "butlast l \<noteq> [] \<and> last (butlast l) = CHR '':''"
    have "butlast l @ [last l] = l" using True by (intro append_butlast_last_id) simp
    moreover have "butlast (butlast l) @ [last (butlast l)] = butlast l"
      using a by (intro append_butlast_last_id) simp
    ultimately have "l = (butlast (butlast l) @ [last (butlast l)]) @ [last l]" by simp
    then have "l = butlast (butlast l) @ ''::''" using a True by simp
    then obtain s where s: "l = s @ ''::''" ..
    have "double_colon (s @ ''::'')" by (simp add: double_colon_def)
    with s assms show False by simp
  qed
  with True show ?thesis by (auto simp: strip_colon_def)
qed

lemma strip_colon_once:
  assumes "double_colon l"
  shows "strip_colon (strip_colon l) \<noteq> strip_colon l"
proof -
  have d: "drop (length l - 2) l = ''::''"
    using assms by (simp add: double_colon_def)
  have "l = take (length l - 2) l @ drop (length l - 2) l" by simp
  then have l: "l = take (length l - 2) l @ ''::''"
    unfolding d .
  define s where "s = take (length l - 2) l"
  have sc: "strip_colon (x @ '':'') = x" for x by (simp add: strip_colon_def)
  have l2: "l = (s @ '':'') @ '':''" using l by (simp add: s_def)
  have "strip_colon l = s @ '':''" by (subst l2) (rule sc)
  then show ?thesis by (simp add: sc)
qed

lemma strip_colon_fixed: "(strip_colon (strip_colon l) = strip_colon l) = (\<not> double_colon l)"
  using strip_colon_twice [of l] strip_colon_once [of l] by blast

lemma settles_blank:
  "strip l = [] \<Longrightarrow>
   settles mode (l # rest)
     = settles (if mode = Open_blank \<or> (mode = Open_text \<and> is_continuation l)
                then Open_blank else Aligned) rest"
  by (simp add: settles.simps(2))

lemma settles_heading:
  "is_heading l \<Longrightarrow> settles mode (l # rest) = (\<not> double_colon l \<and> settles Aligned rest)"
  by (simp add: settles.simps(2) heading_nonblank)

lemma settles_fence:
  "\<not> is_heading l \<Longrightarrow> is_fence l \<Longrightarrow>
   settles mode (l # rest)
     = (case dropWhile in_block rest of [] \<Rightarrow> True | c # post \<Rightarrow> settles Aligned post)"
  by (simp add: settles.simps(2) fence_nonblank)

lemma settles_item:
  "is_list_item l \<Longrightarrow>
   settles mode (l # rest)
     = (case dropWhile in_list rest of
          [] \<Rightarrow> True
        | r # rs \<Rightarrow>
            if strip (last (l # takeWhile in_list rest)) = [] \<and> strip r = []
            then settles Open_blank rs else settles Aligned (r # rs))"
  using heading_not_list_item [of l] fence_not_list_item [of l] list_item_nonblank [of l]
  by (subst settles.simps(2)) auto

lemma settles_cont:
  "strip l \<noteq> [] \<Longrightarrow> is_continuation l \<Longrightarrow>
   settles mode (l # rest) = settles (if mode = Aligned then Aligned else Open_text) rest"
  using heading_not_continuation [of l] fence_not_continuation [of l]
    list_item_not_continuation [of l]
  by (subst settles.simps(2)) auto

lemma settles_text:
  "strip l \<noteq> [] \<Longrightarrow> \<not> is_heading l \<Longrightarrow> \<not> is_fence l \<Longrightarrow> \<not> is_list_item l \<Longrightarrow>
   \<not> is_continuation l \<Longrightarrow>
   settles mode (l # rest) = (mode \<noteq> Open_text \<and> settles Aligned rest)"
  by (subst settles.simps(2)) simp

lemma settles_mode:
  assumes "strip l \<noteq> []" "\<not> is_continuation l"
    and "mode \<noteq> Open_text \<or> is_heading l \<or> is_fence l \<or> is_list_item l"
  shows "settles mode (l # rest) = settles Aligned (l # rest)"
proof (cases l rule: line_cases)
  case heading
  then show ?thesis by (simp add: settles_heading)
next
  case fence
  then show ?thesis by (simp add: settles_fence)
next
  case item
  then show ?thesis by (simp add: settles_item)
next
  case plain
  with assms show ?thesis by (simp add: settles_text)
qed

lemma pass_one_blank:
  "strip l = [] \<Longrightarrow> pass_one q (l # Z) = l # pass_one (Some l) Z"
  using blank_plain [of l] by (simp add: pass_one_plain)

lemma collapse_blank_if: "collapse b (blank_if B) = blank_if (B \<and> \<not> b)"
  by (simp add: blank_if_def)

lemma collapse_front:
  "strip m \<noteq> [] \<Longrightarrow>
   collapse b (blank_if B @ m # xs) = blank_if (B \<and> \<not> b) @ m # collapse False xs"
  by (simp add: collapse_snoc_nonblank collapse_blank_if)

lemma collapse_last_nonblank:
  assumes "xs \<noteq> []" "strip (last xs) \<noteq> []"
  shows "collapse b xs \<noteq> [] \<and> last (collapse b xs) = last xs"
proof -
  have "xs = butlast xs @ [last xs]" using assms(1) by simp
  then have "collapse b xs = collapse b (butlast xs @ last xs # [])" by simp
  also have "\<dots> = collapse b (butlast xs) @ last xs # collapse False []"
    using assms(2) by (rule collapse_snoc_nonblank)
  finally show ?thesis by simp
qed

lemma pass_one_item_cont:
  "is_list_item l \<Longrightarrow>
   pass_one q (l # ys) = blank_if (prev_nonblank q \<and> \<not> prev_item q) @ l # list_cont l ys"
  by (simp add: pass_one_item list_cont_def)

lemma list_cont_Nil: "list_cont m [] = []"
  by (simp add: list_cont_def next_nonblank_def)

lemma list_cont_Cons: "in_list l \<Longrightarrow> list_cont m (l # W) = l # list_cont l W"
  by (simp add: list_cont_def)

lemma list_cont_close:
  "\<not> in_list l \<Longrightarrow>
   list_cont m (l # W) = blank_if (strip l \<noteq> []) @ pass_one (Some m) (l # W)"
  by (simp add: list_cont_def next_nonblank_def)

lemma list_cont_append:
  "\<forall>x\<in>set xs. in_list x \<Longrightarrow> list_cont m (xs @ Z) = xs @ list_cont (last (m # xs)) Z"
  by (induction xs arbitrary: m) (simp_all add: list_cont_Cons)

lemma compatible_blank_kept:
  "strip l = [] \<Longrightarrow> compatible (Some l) True (Some l)"
  by (simp add: compatible_def prev_nonblank_def)

lemma compatible_blank_dropped:
  "compatible p' True p \<Longrightarrow> compatible p' True (Some l)"
  by (auto simp: compatible_def)

lemma compatible_nonblank:
  "strip l \<noteq> [] \<Longrightarrow> compatible (Some l) False (Some l)"
  by (simp add: compatible_def prev_nonblank_def)

lemma compatible_after_blank:
  "strip m = [] \<Longrightarrow> compatible (Some m) True p"
  by (simp add: compatible_def prev_nonblank_def)

lemma compatible_front:
  "compatible p' b p \<Longrightarrow> prev_nonblank p' \<Longrightarrow> prev_nonblank p \<and> \<not> b"
  by (auto simp: compatible_def)

lemma compatible_front_item:
  "compatible p' b p \<Longrightarrow> prev_nonblank p' \<and> \<not> prev_item p' \<Longrightarrow>
   (prev_nonblank p \<and> \<not> prev_item p) \<and> \<not> b"
  by (auto simp: compatible_def)

text \<open>
  The first line a block writes, when the line before it is blank and when it is not.
\<close>

lemma first_out_closed:
  assumes "strip r \<noteq> []" "\<not> in_list r" "\<not> prev_nonblank p"
  shows "\<exists>r' W. collapse c (pass_one p (r # rs)) = r' # W \<and> \<not> in_list r' \<and> strip r' \<noteq> []"
proof (cases r rule: line_cases)
  case heading
  then have h: "is_heading (strip_colon r)" by (rule is_heading_strip_colon)
  then have "strip (strip_colon r) \<noteq> []" "\<not> in_list (strip_colon r)"
    using heading_not_list_item [of "strip_colon r"] heading_not_continuation [of "strip_colon r"]
    by (simp_all add: heading_nonblank in_list_def)
  then show ?thesis
    using assms(3) by (simp add: pass_one_heading [OF heading])
next
  case fence
  then show ?thesis
    using assms by (simp add: pass_one_fence)
next
  case item
  with assms(2) show ?thesis by (simp add: in_list_def)
next
  case plain
  then show ?thesis
    using assms by (simp add: pass_one_plain)
qed

lemma first_out_blank:
  assumes "is_heading l \<or> is_fence l \<or> is_list_item l" "strip m \<noteq> []" "\<not> is_list_item m"
  shows "\<exists>W. collapse False (pass_one (Some m) (l # rest)) = [] # W"
proof (cases l rule: line_cases)
  case heading
  then show ?thesis
    using assms(2) by (simp add: pass_one_heading prev_nonblank_def)
next
  case fence
  then show ?thesis
    using assms(2) by (simp add: pass_one_fence prev_nonblank_def)
next
  case item
  then show ?thesis
    using assms(2,3) by (simp add: pass_one_item prev_nonblank_def prev_item_def)
next
  case plain
  with assms(1) show ?thesis by simp
qed

text \<open>The second run at the first line of a block, after the empty line before it.\<close>

lemma front_again:
  assumes m': "strip m' \<noteq> []"
    and y: "\<And>q. pass_one q (m # T) = blank_if (G q) @ m' # U"
    and g: "\<not> G (Some [])" "G p' \<Longrightarrow> X \<and> \<not> b"
  shows "collapse b (pass_one p' (blank_if (X \<and> \<not> b) @ m # T))
       = blank_if (X \<and> \<not> b) @ m' # collapse False U"
proof (cases "X \<and> \<not> b")
  case True
  have "pass_one p' ([] # m # T) = [] # pass_one (Some []) (m # T)"
    by (rule pass_one_blank) simp
  with True m' g(1) show ?thesis by (simp add: y)
next
  case False
  with g(2) have "\<not> G p'" by blast
  moreover have "blank_if (X \<and> \<not> b) = []" using False by (simp add: blank_if_def)
  ultimately show ?thesis using m' by (simp add: y)
qed

text \<open>The second run after a heading or a code block.\<close>

lemma tail_again:
  assumes IH: "\<And>q c. compatible q c (Some k) \<Longrightarrow> again q c (Some k) post = S"
    and k: "strip k \<noteq> []" "strip m' \<noteq> []" "is_list_item m' = is_list_item k"
    and T_def: "T = collapse False (blank_if (next_nonblank post) @ pass_one (Some k) post)"
  shows "(collapse False (blank_if (next_nonblank T) @ pass_one (Some m') T) = T) = S"
proof (cases "next_nonblank post")
  case True
  define W where "W = collapse True (pass_one (Some k) post)"
  have c: "compatible (Some []) True (Some k)"
    by (simp add: compatible_def prev_nonblank_def)
  have T: "T = [] # W"
    using True by (simp add: T_def W_def)
  have "pass_one (Some m') ([] # W) = [] # pass_one (Some []) W"
    by (rule pass_one_blank) simp
  then have "(collapse False (blank_if (next_nonblank T) @ pass_one (Some m') T) = T)
      = (collapse True (pass_one (Some []) W) = W)"
    unfolding T by (simp add: next_nonblank_def)
  also have "\<dots> = again (Some []) True (Some k) post"
    by (simp add: again_def W_def)
  finally show ?thesis using IH [OF c] by simp
next
  case False
  have c: "compatible (Some m') False (Some k)"
    using k by (simp add: compatible_def prev_nonblank_def prev_item_def)
  have T: "T = collapse False (pass_one (Some k) post)"
    using False by (simp add: T_def)
  have "\<not> next_nonblank T"
  proof (cases post)
    case Nil
    then show ?thesis by (simp add: T next_nonblank_def)
  next
    case (Cons r rs)
    with False have "strip r = []" by (simp add: next_nonblank_def)
    then have "pass_one (Some k) (r # rs) = r # pass_one (Some r) rs"
      by (rule pass_one_blank)
    with \<open>strip r = []\<close> Cons show ?thesis by (simp add: T next_nonblank_def)
  qed
  then have "(collapse False (blank_if (next_nonblank T) @ pass_one (Some m') T) = T)
      = again (Some m') False (Some k) post"
    by (simp add: again_def T)
  then show ?thesis using IH [OF c] by simp
qed

text \<open>The second run inside a list, after its first line.\<close>

lemma block_again:
  assumes item: "is_list_item line"
    and IHN: "\<And>ys q c p. length ys \<le> length rest \<Longrightarrow> compatible q c p \<Longrightarrow>
        again q c p ys = settles Aligned ys"
    and IHB: "\<And>ys m p. length ys \<le> length rest \<Longrightarrow> strip m = [] \<Longrightarrow> \<not> prev_nonblank p \<Longrightarrow>
        again_list m True p ys = settles Open_blank ys"
  shows "(collapse False (list_cont line (collapse False (list_cont line rest)))
          = collapse False (list_cont line rest))
       = settles mode (line # rest)"
proof -
  define items where "items = takeWhile in_list rest"
  define post where "post = dropWhile in_list rest"
  define mx where "mx = last (line # items)"
  define Z0 where "Z0 = blank_if (next_nonblank post) @ pass_one (Some mx) post"
  define citems where "citems = collapse False items"
  define b' where "b' = (strip mx = [])"
  define Z where "Z = collapse b' Z0"
  define m2 where "m2 = last (line # citems)"
  have nl: "strip line \<noteq> []" using item by (rule list_item_nonblank)
  have lr: "list_cont line rest = items @ Z0"
    by (simp add: list_cont_def items_def post_def mx_def Z0_def)
  have bi: "(if items = [] then False else strip (last items) = []) = b'"
    unfolding b'_def mx_def using nl by simp
  have Y: "collapse False (list_cont line rest) = citems @ Z"
    unfolding lr collapse_append [of False items Z0] bi citems_def Z_def ..
  have bm: "(strip m2 = []) = b'"
  proof (cases "items = []")
    case True
    then show ?thesis using nl by (simp add: m2_def citems_def b'_def mx_def)
  next
    case False
    show ?thesis
    proof (cases "strip (last items) = []")
      case True
      with False have "citems \<noteq> [] \<and> strip (last citems) = []"
        unfolding citems_def by (intro collapse_last_blank)
      with True False show ?thesis by (simp add: m2_def b'_def mx_def)
    next
      case nb: False
      with False have "citems \<noteq> [] \<and> last citems = last items"
        unfolding citems_def by (intro collapse_last_nonblank)
      with nb False show ?thesis by (simp add: m2_def b'_def mx_def)
    qed
  qed
  have "\<forall>x\<in>set items. in_list x"
    unfolding items_def by (auto dest: set_takeWhileD)
  then have ci: "\<forall>x\<in>set citems. in_list x"
    unfolding citems_def using collapse_set [of False items] by blast
  have lc: "list_cont line (citems @ Z) = citems @ list_cont m2 Z"
    unfolding m2_def by (rule list_cont_append [OF ci])
  have ce: "(if citems = [] then False else strip (last citems) = []) = b'"
    using bm nl by (auto simp: m2_def)
  have cf: "collapse False citems = citems"
    unfolding citems_def by (rule collapse_idem)
  have cc: "collapse False (citems @ V) = citems @ collapse b' V" for V
    unfolding collapse_append [of False citems V] ce cf ..
  have red: "(collapse False (list_cont line (collapse False (list_cont line rest)))
          = collapse False (list_cont line rest))
       = (collapse b' (list_cont m2 Z) = Z)"
    unfolding Y lc cc by simp
  have len: "length post \<le> length rest"
    unfolding post_def by (rule length_dropWhile_le)
  have "(collapse b' (list_cont m2 Z) = Z) = settles mode (line # rest)"
  proof (cases post)
    case Nil
    then have "Z = []" by (simp add: Z_def Z0_def next_nonblank_def)
    moreover have "settles mode (line # rest)"
      using Nil by (simp add: settles_item [OF item] post_def [symmetric])
    ultimately show ?thesis by (simp add: list_cont_Nil)
  next
    case (Cons r rs)
    then have "dropWhile in_list rest \<noteq> []" unfolding post_def by simp
    then have "\<not> in_list (hd (dropWhile in_list rest))" by (rule hd_dropWhile)
    then have nr: "\<not> in_list r" using Cons unfolding post_def by simp
    have lrs: "length rs \<le> length rest" using len Cons by simp
    have st: "settles mode (line # rest)
        = (if b' \<and> strip r = [] then settles Open_blank rs else settles Aligned post)"
      using Cons
      by (simp add: settles_item [OF item] post_def [symmetric] items_def [symmetric]
          mx_def [symmetric] b'_def del: last.simps)
    show ?thesis
    proof (cases "strip r = []")
      case nb: False
      then have Z0: "Z0 = [] # pass_one (Some mx) post"
        using Cons by (simp add: Z0_def next_nonblank_def)
      show ?thesis
      proof (cases b')
        case True
        then have Z: "Z = collapse True (pass_one (Some mx) post)"
          by (simp add: Z_def Z0)
        have "\<not> prev_nonblank (Some mx)"
          using True by (simp add: prev_nonblank_def b'_def)
        from first_out_closed [OF nb nr this, of True rs]
        obtain r' W where rW: "Z = r' # W" "\<not> in_list r'" "strip r' \<noteq> []"
          unfolding Z Cons by blast
        have "list_cont m2 Z = [] # pass_one (Some m2) Z"
          unfolding rW(1) using rW(2,3) by (simp add: list_cont_close)
        then have "(collapse b' (list_cont m2 Z) = Z) = again (Some m2) True (Some mx) post"
          using True by (simp add: again_def Z)
        also have "\<dots> = settles Aligned post"
          using True bm by (intro IHN [OF len] compatible_after_blank) simp
        finally show ?thesis using st nb by simp
      next
        case False
        define W where "W = collapse True (pass_one (Some mx) post)"
        have Z: "Z = [] # W"
          using False by (simp add: Z_def Z0 W_def)
        have "pass_one (Some m2) ([] # W) = [] # pass_one (Some []) W"
          by (rule pass_one_blank) simp
        then have "list_cont m2 Z = [] # pass_one (Some []) W"
          unfolding Z by (simp add: list_cont_close not_in_list_Nil)
        then have "(collapse b' (list_cont m2 Z) = Z) = again (Some []) True (Some mx) post"
          using False by (simp add: again_def Z W_def)
        also have "\<dots> = settles Aligned post"
          by (intro IHN [OF len] compatible_after_blank) simp
        finally show ?thesis using st nb by simp
      qed
    next
      case True
      have p1: "pass_one (Some mx) (r # rs) = r # pass_one (Some r) rs"
        using True by (rule pass_one_blank)
      have Z0: "Z0 = r # pass_one (Some r) rs"
        using True Cons p1 by (simp add: Z0_def next_nonblank_def)
      show ?thesis
      proof (cases b')
        case b: True
        then have Z: "Z = collapse True (pass_one (Some r) rs)"
          using True by (simp add: Z_def Z0)
        have "(collapse b' (list_cont m2 Z) = Z) = again_list m2 True (Some r) rs"
          using b by (simp add: again_list_def Z)
        also have "\<dots> = settles Open_blank rs"
          using b bm True by (intro IHB [OF lrs]) (simp_all add: prev_nonblank_def)
        finally show ?thesis using st True b by simp
      next
        case False
        define W where "W = collapse True (pass_one (Some r) rs)"
        have Z: "Z = r # W"
          using False True by (simp add: Z_def Z0 W_def)
        have "pass_one (Some m2) (r # W) = r # pass_one (Some r) W"
          using True by (rule pass_one_blank)
        then have "list_cont m2 Z = r # pass_one (Some r) W"
          unfolding Z using nr True by (simp add: list_cont_close)
        then have "(collapse b' (list_cont m2 Z) = Z) = again (Some r) True (Some r) rs"
          using False True by (simp add: again_def Z W_def)
        also have "\<dots> = settles Aligned rs"
          using True by (intro IHN [OF lrs] compatible_blank_kept)
        also have "\<dots> = settles Aligned post"
          using True Cons by (simp add: settles_blank)
        finally show ?thesis using st False by simp
      qed
    qed
  qed
  with red show ?thesis by simp
qed

text \<open>The second run where the first run was, for the document \<open>xs\<close> still to come.\<close>

lemma again_step:
  assumes IHN: "\<And>ys q c p. length ys < length xs \<Longrightarrow> compatible q c p \<Longrightarrow>
        again q c p ys = settles Aligned ys"
    and IHB: "\<And>ys m p. length ys < length xs \<Longrightarrow> strip m = [] \<Longrightarrow> \<not> prev_nonblank p \<Longrightarrow>
        again_list m True p ys = settles Open_blank ys"
    and cp: "compatible p' b p"
  shows "again p' b p xs = settles Aligned xs"
proof (cases xs)
  case Nil
  then show ?thesis by (simp add: again_def)
next
  case (Cons line rest)
  show ?thesis
  proof (cases line rule: line_cases)
    case heading
    define m where "m = strip_colon line"
    define T where "T = collapse False (blank_if (next_nonblank rest) @ pass_one (Some line) rest)"
    have hm: "is_heading m" unfolding m_def using heading by (rule is_heading_strip_colon)
    have hm2: "is_heading (strip_colon m)" using hm by (rule is_heading_strip_colon)
    have nm: "strip m \<noteq> []" "strip line \<noteq> []" "strip (strip_colon m) \<noteq> []"
      using hm hm2 heading by (simp_all add: heading_nonblank)
    have li: "is_list_item m = is_list_item line"
      using hm heading by (simp add: heading_not_list_item)
    have IH: "compatible q c (Some line) \<Longrightarrow> again q c (Some line) rest = settles Aligned rest"
      for q c
      using Cons by (intro IHN) simp
    have t: "(collapse False (blank_if (next_nonblank T) @ pass_one (Some m) T) = T)
        = settles Aligned rest"
      by (rule tail_again [OF IH nm(2,1) li T_def])
    have y: "pass_one q (m # T)
        = blank_if (prev_nonblank q) @ strip_colon m # blank_if (next_nonblank T) @
            pass_one (Some m) T" for q
      by (rule pass_one_heading [OF hm])
    have R: "collapse b (pass_one p (line # rest))
        = blank_if (prev_nonblank p \<and> \<not> b) @ m # T"
      unfolding pass_one_heading [OF heading] m_def [symmetric] T_def
      by (rule collapse_front [OF nm(1)])
    have g: "\<not> prev_nonblank (Some [])" by (simp add: prev_nonblank_def)
    have "collapse b (pass_one p' (blank_if (prev_nonblank p \<and> \<not> b) @ m # T))
        = blank_if (prev_nonblank p \<and> \<not> b) @ strip_colon m #
            collapse False (blank_if (next_nonblank T) @ pass_one (Some m) T)"
      by (rule front_again [OF nm(3) y g compatible_front [OF cp]])
    then have "again p' b p xs
        = (strip_colon m = m \<and>
           collapse False (blank_if (next_nonblank T) @ pass_one (Some m) T) = T)"
      unfolding again_def Cons R by simp
    also have "\<dots> = (\<not> double_colon line \<and> settles Aligned rest)"
      unfolding t unfolding m_def strip_colon_fixed ..
    finally show ?thesis
      unfolding Cons by (simp add: settles_heading [OF heading])
  next
    case plain
    have y: "pass_one q (line # Z) = line # pass_one (Some line) Z" for q Z
      using plain by (rule pass_one_plain)
    have st: "settles Aligned xs = settles Aligned rest"
    proof (cases "strip line = []")
      case True
      then show ?thesis unfolding Cons by (simp add: settles_blank)
    next
      case False
      show ?thesis
      proof (cases "is_continuation line")
        case True
        with False show ?thesis unfolding Cons by (simp add: settles_cont)
      next
        case nc: False
        with False plain show ?thesis unfolding Cons by (simp add: settles_text)
      qed
    qed
    have lr: "length rest < length xs" using Cons by simp
    show ?thesis
    proof (cases "strip line = []")
      case False
      have "again p' b p xs = again (Some line) False (Some line) rest"
        unfolding again_def Cons using False by (simp add: y)
      also have "\<dots> = settles Aligned rest"
        using False by (intro IHN [OF lr] compatible_nonblank)
      finally show ?thesis using st by simp
    next
      case True
      show ?thesis
      proof (cases b)
        case b: True
        have "again p' b p xs = again p' True (Some line) rest"
          unfolding again_def Cons using True b by (simp add: y)
        also have "\<dots> = settles Aligned rest"
          using cp b by (intro IHN [OF lr] compatible_blank_dropped [of p' p]) simp
        finally show ?thesis using st by simp
      next
        case False
        have "again p' b p xs = again (Some line) True (Some line) rest"
          unfolding again_def Cons using True False by (simp add: y)
        also have "\<dots> = settles Aligned rest"
          using True by (intro IHN [OF lr] compatible_blank_kept)
        finally show ?thesis using st by simp
      qed
    qed
  next
    case fence
    have nl: "strip line \<noteq> []" using fence(2) by (rule fence_nonblank)
    have g: "\<not> prev_nonblank (Some [])" by (simp add: prev_nonblank_def)
    show ?thesis
    proof (cases "dropWhile in_block rest")
      case Nil
      then have "\<forall>x\<in>set rest. in_block x" by simp
      then have "\<forall>x\<in>set (collapse False rest). in_block x"
        using collapse_set [of False rest] by blast
      then have dw: "dropWhile in_block (collapse False rest) = []" by simp
      have y: "pass_one q (line # collapse False rest)
          = blank_if (prev_nonblank q) @ line # collapse False rest" for q
        by (rule pass_one_fence_open [OF fence(2) dw])
      have R: "collapse b (pass_one p (line # rest))
          = blank_if (prev_nonblank p \<and> \<not> b) @ line # collapse False rest"
        unfolding pass_one_fence_open [OF fence(2) Nil]
        by (rule collapse_front [OF nl])
      have "collapse b (pass_one p' (blank_if (prev_nonblank p \<and> \<not> b) @ line # collapse False rest))
          = blank_if (prev_nonblank p \<and> \<not> b) @ line # collapse False (collapse False rest)"
        by (rule front_again [OF nl y g compatible_front [OF cp]])
      then have "again p' b p xs"
        unfolding again_def Cons R by (simp add: collapse_idem)
      then show ?thesis
        unfolding Cons settles_fence [OF fence(1,2)] Nil by simp
    next
      case c: (Cons c post)
      define body where "body = takeWhile in_block rest"
      define cbody where "cbody = collapse False body"
      define T where "T = collapse False (blank_if (next_nonblank post) @ pass_one (Some c) post)"
      have r: "rest = body @ c # post"
        unfolding body_def using c by (metis takeWhile_dropWhile_id)
      have "dropWhile in_block rest \<noteq> []" using c by simp
      then have "\<not> in_block (hd (dropWhile in_block rest))" by (rule hd_dropWhile)
      then have cc: "is_closing_fence c" using c by (simp add: in_block_def)
      then have nc: "strip c \<noteq> []" by (rule closing_fence_nonblank)
      have lp: "length post < length xs" using Cons r by simp
      have IH: "compatible q d (Some c) \<Longrightarrow> again q d (Some c) post = settles Aligned post"
        for q d
        by (rule IHN [OF lp])
      have t: "(collapse False (blank_if (next_nonblank T) @ pass_one (Some c) T) = T)
          = settles Aligned post"
        by (rule tail_again [OF IH nc nc refl T_def])
      have "\<forall>x\<in>set body. in_block x"
        unfolding body_def by (auto dest: set_takeWhileD)
      then have ib: "\<forall>x\<in>set cbody. in_block x"
        unfolding cbody_def using collapse_set [of False body] by blast
      have tk: "takeWhile in_block (cbody @ c # T) = cbody"
        using ib cc by (simp add: in_block_def)
      have dw: "dropWhile in_block (cbody @ c # T) = c # T"
        using ib cc by (simp add: in_block_def)
      have y: "pass_one q (line # cbody @ c # T)
          = blank_if (prev_nonblank q) @ line # cbody @ c # blank_if (next_nonblank T) @
              pass_one (Some c) T" for q
        unfolding pass_one_fence_closed [OF fence(2) dw] tk ..
      have "collapse False (body @ c # blank_if (next_nonblank post) @ pass_one (Some c) post)
          = cbody @ c # T"
        unfolding T_def cbody_def by (rule collapse_snoc_nonblank [OF nc])
      then have R: "collapse b (pass_one p (line # rest))
          = blank_if (prev_nonblank p \<and> \<not> b) @ line # cbody @ c # T"
        unfolding pass_one_fence_closed [OF fence(2) c] body_def [symmetric]
        by (simp add: collapse_front [OF nl])
      have cb: "collapse False cbody = cbody"
        unfolding cbody_def by (rule collapse_idem)
      have U: "collapse False (cbody @ c # blank_if (next_nonblank T) @ pass_one (Some c) T)
          = cbody @ c # collapse False (blank_if (next_nonblank T) @ pass_one (Some c) T)"
        unfolding collapse_snoc_nonblank [OF nc] cb ..
      have "collapse b (pass_one p' (blank_if (prev_nonblank p \<and> \<not> b) @ line # cbody @ c # T))
          = blank_if (prev_nonblank p \<and> \<not> b) @ line #
              collapse False (cbody @ c # blank_if (next_nonblank T) @ pass_one (Some c) T)"
        by (rule front_again [OF nl y g compatible_front [OF cp]])
      then have "again p' b p xs
          = (collapse False (blank_if (next_nonblank T) @ pass_one (Some c) T) = T)"
        unfolding again_def Cons R U by simp
      then show ?thesis
        unfolding Cons t using c by (simp add: settles_fence [OF fence(1,2)])
    qed
  next
    case item
    define Y where "Y = collapse False (list_cont line rest)"
    have nl: "strip line \<noteq> []" using item(3) by (rule list_item_nonblank)
    have y: "pass_one q (line # Y)
        = blank_if (prev_nonblank q \<and> \<not> prev_item q) @ line # list_cont line Y" for q
      by (rule pass_one_item_cont [OF item(3)])
    have R: "collapse b (pass_one p (line # rest))
        = blank_if ((prev_nonblank p \<and> \<not> prev_item p) \<and> \<not> b) @ line # Y"
      unfolding pass_one_item_cont [OF item(3)] Y_def
      by (rule collapse_front [OF nl])
    have g: "\<not> (prev_nonblank (Some []) \<and> \<not> prev_item (Some []))"
      by (simp add: prev_nonblank_def)
    have "collapse b (pass_one p' (blank_if ((prev_nonblank p \<and> \<not> prev_item p) \<and> \<not> b) @ line # Y))
        = blank_if ((prev_nonblank p \<and> \<not> prev_item p) \<and> \<not> b) @ line #
            collapse False (list_cont line Y)"
      by (rule front_again [where G = "\<lambda>q. prev_nonblank q \<and> \<not> prev_item q",
            OF nl y g compatible_front_item [OF cp]])
    then have "again p' b p xs = (collapse False (list_cont line Y) = Y)"
      unfolding again_def Cons R by simp
    also have "\<dots> = settles Aligned (line # rest)"
      unfolding Y_def
    proof (rule block_again [OF item(3)])
      fix ys :: "string list" and q c p
      assume "length ys \<le> length rest" "compatible q c p"
      then show "again q c p ys = settles Aligned ys"
        using Cons by (intro IHN) simp_all
    next
      fix ys :: "string list" and m p
      assume "length ys \<le> length rest" "strip m = []" "\<not> prev_nonblank p"
      then show "again_list m True p ys = settles Open_blank ys"
        using Cons by (intro IHB) simp_all
    qed
    finally show ?thesis unfolding Cons .
  qed
qed

text \<open>The second run inside a list whose last line is blank.\<close>

lemma again_list_blank:
  assumes N: "\<And>q c p. compatible q c p \<Longrightarrow> again q c p xs = settles Aligned xs"
    and IHN: "\<And>ys q c p. length ys < length xs \<Longrightarrow> compatible q c p \<Longrightarrow>
        again q c p ys = settles Aligned ys"
    and IHB: "\<And>ys m p. length ys < length xs \<Longrightarrow> strip m = [] \<Longrightarrow> \<not> prev_nonblank p \<Longrightarrow>
        again_list m True p ys = settles Open_blank ys"
    and IHT: "\<And>ys m. length ys < length xs \<Longrightarrow> strip m \<noteq> [] \<Longrightarrow> \<not> is_list_item m \<Longrightarrow>
        again_list m False (Some m) ys = settles Open_text ys"
    and m: "strip m = []" and p: "\<not> prev_nonblank p"
  shows "again_list m True p xs = settles Open_blank xs"
proof (cases xs)
  case Nil
  then show ?thesis by (simp add: again_list_def list_cont_Nil)
next
  case (Cons l rest)
  have lr: "length rest < length xs" using Cons by simp
  show ?thesis
  proof (cases "strip l = []")
    case True
    have "pass_one p (l # rest) = l # pass_one (Some l) rest"
      using True by (rule pass_one_blank)
    then have "again_list m True p xs = again_list m True (Some l) rest"
      unfolding again_list_def Cons using True by simp
    also have "\<dots> = settles Open_blank rest"
      using m True by (intro IHB [OF lr]) (simp_all add: prev_nonblank_def)
    finally show ?thesis unfolding Cons using True by (simp add: settles_blank)
  next
    case nb: False
    show ?thesis
    proof (cases "in_list l")
      case il: True
      show ?thesis
      proof (cases "is_list_item l")
        case True
        define Y where "Y = collapse False (list_cont l rest)"
        have R: "collapse True (pass_one p (l # rest)) = l # Y"
          unfolding pass_one_item_cont [OF True] Y_def using p nb by simp
        have "list_cont m (l # Y) = l # list_cont l Y"
          using il by (rule list_cont_Cons)
        then have "again_list m True p xs = (collapse False (list_cont l Y) = Y)"
          unfolding again_list_def Cons R using nb by simp
        also have "\<dots> = settles Open_blank (l # rest)"
          unfolding Y_def
        proof (rule block_again [OF True])
          fix ys :: "string list" and q c p
          assume "length ys \<le> length rest" "compatible q c p"
          then show "again q c p ys = settles Aligned ys"
            using Cons by (intro IHN) simp_all
        next
          fix ys :: "string list" and m p
          assume "length ys \<le> length rest" "strip m = []" "\<not> prev_nonblank p"
          then show "again_list m True p ys = settles Open_blank ys"
            using Cons by (intro IHB) simp_all
        qed
        finally show ?thesis unfolding Cons .
      next
        case False
        with il have co: "is_continuation l" by (simp add: in_list_def)
        define W where "W = collapse False (pass_one (Some l) rest)"
        have "pass_one p (l # rest) = l # pass_one (Some l) rest"
          using co False heading_not_continuation [of l] fence_not_continuation [of l]
          by (intro pass_one_plain) auto
        then have R: "collapse True (pass_one p (l # rest)) = l # W"
          using nb by (simp add: W_def)
        have "list_cont m (l # W) = l # list_cont l W"
          using il by (rule list_cont_Cons)
        then have "again_list m True p xs = again_list l False (Some l) rest"
          unfolding again_list_def Cons R using nb by (simp add: W_def)
        also have "\<dots> = settles Open_text rest"
          using nb False by (intro IHT [OF lr])
        finally show ?thesis unfolding Cons using nb co by (simp add: settles_cont)
      qed
    next
      case False
      from first_out_closed [OF nb False p, of True rest]
      obtain r' W where rW: "collapse True (pass_one p (l # rest)) = r' # W"
        "\<not> in_list r'" "strip r' \<noteq> []"
        by blast
      have "list_cont m (r' # W) = [] # pass_one (Some m) (r' # W)"
        using rW(2,3) by (simp add: list_cont_close)
      then have "again_list m True p xs = again (Some m) True p xs"
        unfolding again_list_def again_def Cons rW(1) by simp
      also have "\<dots> = settles Aligned xs"
        using m by (intro N compatible_after_blank)
      also have "\<dots> = settles Open_blank xs"
        unfolding Cons using nb False
        by (intro settles_mode [symmetric]) (simp_all add: in_list_def)
      finally show ?thesis .
    qed
  qed
qed

text \<open>The second run inside a list whose last line is not blank.\<close>

lemma again_list_text:
  assumes N: "\<And>q c p. compatible q c p \<Longrightarrow> again q c p xs = settles Aligned xs"
    and IHN: "\<And>ys q c p. length ys < length xs \<Longrightarrow> compatible q c p \<Longrightarrow>
        again q c p ys = settles Aligned ys"
    and IHB: "\<And>ys m p. length ys < length xs \<Longrightarrow> strip m = [] \<Longrightarrow> \<not> prev_nonblank p \<Longrightarrow>
        again_list m True p ys = settles Open_blank ys"
    and IHT: "\<And>ys m. length ys < length xs \<Longrightarrow> strip m \<noteq> [] \<Longrightarrow> \<not> is_list_item m \<Longrightarrow>
        again_list m False (Some m) ys = settles Open_text ys"
    and m: "strip m \<noteq> []" "\<not> is_list_item m"
  shows "again_list m False (Some m) xs = settles Open_text xs"
proof (cases xs)
  case Nil
  then show ?thesis by (simp add: again_list_def list_cont_Nil)
next
  case (Cons l rest)
  have lr: "length rest < length xs" using Cons by simp
  show ?thesis
  proof (cases "strip l = []")
    case True
    define W where "W = collapse True (pass_one (Some l) rest)"
    have "pass_one (Some m) (l # rest) = l # pass_one (Some l) rest"
      using True by (rule pass_one_blank)
    then have R: "collapse False (pass_one (Some m) (l # rest)) = l # W"
      using True by (simp add: W_def)
    have ni: "\<not> is_list_item l" using True list_item_nonblank [of l] by blast
    show ?thesis
    proof (cases "is_continuation l")
      case co: True
      then have "list_cont m (l # W) = l # list_cont l W"
        by (intro list_cont_Cons) (simp add: in_list_def)
      then have "again_list m False (Some m) xs = again_list l True (Some l) rest"
        unfolding again_list_def Cons R using True by (simp add: W_def)
      also have "\<dots> = settles Open_blank rest"
        using True by (intro IHB [OF lr]) (simp_all add: prev_nonblank_def)
      finally show ?thesis unfolding Cons using True co by (simp add: settles_blank)
    next
      case False
      with ni have nil: "\<not> in_list l" by (simp add: in_list_def)
      have "pass_one (Some m) (l # W) = l # pass_one (Some l) W"
        using True by (rule pass_one_blank)
      then have "list_cont m (l # W) = l # pass_one (Some l) W"
        using nil True by (simp add: list_cont_close)
      then have "again_list m False (Some m) xs = again (Some l) True (Some l) rest"
        unfolding again_list_def again_def Cons R using True by (simp add: W_def)
      also have "\<dots> = settles Aligned rest"
        using True by (intro IHN [OF lr] compatible_blank_kept)
      finally show ?thesis unfolding Cons using True False by (simp add: settles_blank)
    qed
  next
    case nb: False
    show ?thesis
    proof (cases "is_continuation l")
      case True
      then have ni: "\<not> is_list_item l" using list_item_not_continuation [of l] by blast
      define W where "W = collapse False (pass_one (Some l) rest)"
      have "pass_one (Some m) (l # rest) = l # pass_one (Some l) rest"
        using True ni heading_not_continuation [of l] fence_not_continuation [of l]
        by (intro pass_one_plain) auto
      then have R: "collapse False (pass_one (Some m) (l # rest)) = l # W"
        using nb by (simp add: W_def)
      have "list_cont m (l # W) = l # list_cont l W"
        using True by (intro list_cont_Cons) (simp add: in_list_def)
      then have "again_list m False (Some m) xs = again_list l False (Some l) rest"
        unfolding again_list_def Cons R using nb by (simp add: W_def)
      also have "\<dots> = settles Open_text rest"
        using nb ni by (intro IHT [OF lr])
      finally show ?thesis unfolding Cons using nb True by (simp add: settles_cont)
    next
      case nc: False
      show ?thesis
      proof (cases "is_heading l \<or> is_fence l \<or> is_list_item l")
        case True
        from first_out_blank [OF True m, of rest]
        obtain W where R: "collapse False (pass_one (Some m) (l # rest)) = [] # W"
          by blast
        have "list_cont m ([] # W) = pass_one (Some m) ([] # W)"
          by (simp add: list_cont_close not_in_list_Nil)
        then have "again_list m False (Some m) xs = again (Some m) False (Some m) xs"
          unfolding again_list_def again_def Cons R by simp
        also have "\<dots> = settles Aligned xs"
          using m(1) by (intro N compatible_nonblank)
        also have "\<dots> = settles Open_text xs"
          unfolding Cons using nb nc True
          by (intro settles_mode [symmetric]) simp_all
        finally show ?thesis .
      next
        case False
        define W where "W = collapse False (pass_one (Some l) rest)"
        have "pass_one (Some m) (l # rest) = l # pass_one (Some l) rest"
          using False by (intro pass_one_plain) auto
        then have R: "collapse False (pass_one (Some m) (l # rest)) = l # W"
          using nb by (simp add: W_def)
        have nil: "\<not> in_list l" using False nc by (simp add: in_list_def)
        have "list_cont m (l # W) = [] # pass_one (Some m) (l # W)"
          using nil nb by (simp add: list_cont_close)
        moreover have "l \<noteq> []" using nb by auto
        ultimately have "\<not> again_list m False (Some m) xs"
          unfolding again_list_def Cons R by simp
        moreover have "\<not> settles Open_text (l # rest)"
          using nb nc False by (simp add: settles_text)
        ultimately show ?thesis unfolding Cons by simp
      qed
    qed
  qed
qed

text \<open>All three, by induction on the length of the document still to come.\<close>

lemma second_run:
  "(\<forall>q c p. compatible q c p \<longrightarrow> again q c p xs = settles Aligned xs) \<and>
   (\<forall>m p. strip m = [] \<longrightarrow> \<not> prev_nonblank p \<longrightarrow>
      again_list m True p xs = settles Open_blank xs) \<and>
   (\<forall>m. strip m \<noteq> [] \<longrightarrow> \<not> is_list_item m \<longrightarrow>
      again_list m False (Some m) xs = settles Open_text xs)"
proof (induction xs rule: length_induct)
  case (1 xs)
  have IHN: "again q c p ys = settles Aligned ys"
    if "length ys < length xs" "compatible q c p" for ys :: "string list" and q c p
    using "1" that by blast
  have IHB: "again_list m True p ys = settles Open_blank ys"
    if "length ys < length xs" "strip m = []" "\<not> prev_nonblank p"
    for ys :: "string list" and m p
    using "1" that by blast
  have IHT: "again_list m False (Some m) ys = settles Open_text ys"
    if "length ys < length xs" "strip m \<noteq> []" "\<not> is_list_item m"
    for ys :: "string list" and m
    using "1" that by blast
  have N: "again q c p xs = settles Aligned xs" if "compatible q c p" for q c p
    using IHN IHB that by (rule again_step)
  have B: "again_list m True p xs = settles Open_blank xs"
    if "strip m = []" "\<not> prev_nonblank p" for m p
    using N IHN IHB IHT that by (rule again_list_blank)
  have T: "again_list m False (Some m) xs = settles Open_text xs"
    if "strip m \<noteq> []" "\<not> is_list_item m" for m
    using N IHN IHB IHT that by (rule again_list_text)
  from N B T show ?case by blast
qed

lemma formatter_settles:
  "(fix_markdown_formatting (fix_markdown_formatting content) = fix_markdown_formatting content)
     = settles Aligned (split_nl content)"
proof -
  define ls where "ls = collapse False (pass_one None (split_nl content))"
  have c: "compatible None False None" by (simp add: compatible_def prev_nonblank_def)
  have f: "fix_markdown_formatting x = join_nl (collapse False (pass_one None (split_nl x)))"
    for x
    by (simp add: fix_markdown_formatting_def first_pass_eq remove_consecutive_empty_collapse)
  have s1: "split_nl (fix_markdown_formatting content) = ls"
    unfolding ls_def by (rule formatted_lines)
  have s2: "split_nl (fix_markdown_formatting (fix_markdown_formatting content))
      = collapse False (pass_one None ls)"
    unfolding formatted_lines [of "fix_markdown_formatting content"] s1 ..
  have "(fix_markdown_formatting (fix_markdown_formatting content)
      = fix_markdown_formatting content) = (collapse False (pass_one None ls) = ls)"
  proof
    assume "fix_markdown_formatting (fix_markdown_formatting content)
      = fix_markdown_formatting content"
    then have "split_nl (fix_markdown_formatting (fix_markdown_formatting content))
      = split_nl (fix_markdown_formatting content)" by simp
    then show "collapse False (pass_one None ls) = ls" unfolding s1 s2 .
  next
    assume a: "collapse False (pass_one None ls) = ls"
    have "fix_markdown_formatting (fix_markdown_formatting content)
        = join_nl (collapse False (pass_one None ls))"
      unfolding f [of "fix_markdown_formatting content"] s1 ..
    also have "\<dots> = join_nl ls" unfolding a ..
    also have "\<dots> = fix_markdown_formatting content"
      unfolding f [of content] ls_def ..
    finally show "fix_markdown_formatting (fix_markdown_formatting content)
      = fix_markdown_formatting content" .
  qed
  also have "\<dots> = again None False None (split_nl content)"
    by (simp add: again_def ls_def)
  also have "\<dots> = settles Aligned (split_nl content)"
    using second_run [of "split_nl content"] c by blast
  finally show ?thesis .
qed

subsection \<open>The lines the main loop does not process\<close>

text \<open>
  Every line is processed by the main loop or lies in the block of a line that is: the
  turn at that line moves the index past it.
\<close>

lemma visits_cover:
  "visits lines b fl \<Longrightarrow> i < b \<Longrightarrow> i < length lines \<Longrightarrow>
   visited lines i \<or>
   (\<exists>a. visited lines a \<and> a < length lines \<and> a < i \<and> i < next_index lines a)"
proof (induction arbitrary: i rule: visits.induct)
  case start
  then show ?case by simp
next
  case (step b fl b' fl')
  have b': "b' = next_index lines b"
    using step(3) loop_body_eq [OF step(2), of fl] by simp
  have vb: "visited lines b" using step(1) by (auto simp: visited_def)
  consider "i < b" | "i = b" | "b < i" by linarith
  then show ?case
  proof cases
    case 1
    then show ?thesis using step.IH step.prems(2) by simp
  next
    case 2
    with vb show ?thesis by simp
  next
    case 3
    with vb step(2) step.prems(1) b' show ?thesis by blast
  qed
qed

lemma line_covered:
  assumes "i < length lines"
  shows "visited lines i \<or>
    (\<exists>a. visited lines a \<and> a < length lines \<and> a < i \<and> i < next_index lines a)"
proof -
  obtain b fl where "visits lines b fl" "length lines \<le> b"
    using main_loop_final [OF visits.start, of lines] by blast
  then show ?thesis using visits_cover [of lines b fl i] assms by simp
qed

text \<open>
  A heading line that the main loop does not process lies in a code block: it comes after
  an opening fence that the loop processes, and no line from there to the heading is a
  closing fence.
\<close>

lemma unvisited_heading_in_code_block:
  assumes "i < length lines" "is_heading (lines ! i)" "\<not> visited lines i"
  shows "\<exists>a. visited lines a \<and> a < i \<and> is_fence (lines ! a) \<and>
    (\<forall>k. a < k \<and> k \<le> i \<longrightarrow> \<not> is_closing_fence (lines ! k))"
proof -
  from line_covered [OF assms(1)] assms(3) obtain a where
    a: "visited lines a" "a < length lines" "a < i" "i < next_index lines a"
    by blast
  define rest where "rest = drop (Suc a) lines"
  have nth: "rest ! k = lines ! (Suc a + k)" if "Suc a + k < length lines" for k
    using that by (simp add: rest_def)
  show ?thesis
  proof (cases "lines ! a" rule: line_cases)
    case heading
    with block_out_heading [OF a(2) heading] a(3,4) show ?thesis by simp
  next
    case plain
    with block_out_plain [OF a(2) plain] a(3,4) show ?thesis by simp
  next
    case item
    define n where "n = length (takeWhile in_list rest)"
    have "next_index lines a = Suc (a + n)"
      using block_out_list [OF a(2) item(3)] by (simp add: n_def rest_def)
    with a(3,4) have k: "i - Suc a < n" by simp
    then have "takeWhile in_list rest ! (i - Suc a) = rest ! (i - Suc a)"
      unfolding n_def by (rule takeWhile_nth)
    moreover have "takeWhile in_list rest ! (i - Suc a) \<in> set (takeWhile in_list rest)"
      using k by (simp add: n_def)
    ultimately have "in_list (rest ! (i - Suc a))"
      by (auto dest: set_takeWhileD)
    moreover have "rest ! (i - Suc a) = lines ! i"
      using nth [of "i - Suc a"] a(3) assms(1) by simp
    ultimately have "in_list (lines ! i)" by simp
    with assms(2) show ?thesis
      using heading_not_list_item [of "lines ! i"] heading_not_continuation [of "lines ! i"]
      by (simp add: in_list_def)
  next
    case fence
    define n where "n = length (takeWhile in_block rest)"
    have nx: "next_index lines a = Suc (Suc a + n)"
      using block_out_fence [OF a(2) fence(2)] by (simp add: n_def rest_def)
    have inb: "\<not> is_closing_fence (lines ! k)" if "a < k" "k \<le> a + n" for k
    proof -
      have k: "k - Suc a < n" using that by simp
      then have "takeWhile in_block rest ! (k - Suc a) = rest ! (k - Suc a)"
        unfolding n_def by (rule takeWhile_nth)
      moreover have "takeWhile in_block rest ! (k - Suc a) \<in> set (takeWhile in_block rest)"
        using k by (simp add: n_def)
      ultimately have "in_block (rest ! (k - Suc a))"
        by (auto dest: set_takeWhileD)
      moreover have "n \<le> length rest" unfolding n_def by (rule length_takeWhile_le)
      then have "rest ! (k - Suc a) = lines ! k"
        using nth [of "k - Suc a"] that by (simp add: rest_def)
      ultimately show ?thesis by (simp add: in_block_def)
    qed
    have "i \<noteq> Suc (a + n)"
    proof
      assume e: "i = Suc (a + n)"
      then have "n < length rest" using assms(1) by (simp add: rest_def)
      then have "\<not> in_block (rest ! n)" unfolding n_def by (rule nth_length_takeWhile)
      moreover have "rest ! n = lines ! i" using nth [of n] e assms(1) by simp
      ultimately have "is_fence (lines ! i)"
        by (simp add: in_block_def is_closing_fence_fence)
      with assms(2) show False using heading_not_fence by blast
    qed
    with a(4) nx have "i \<le> a + n" by simp
    with inb a(1,3) fence(2) show ?thesis by (intro exI [of _ a]) auto
  qed
qed

subsection \<open>The lines that are not blank, one by one\<close>

lemma nonblank_first_pass_related:
  "list_all2 (\<lambda>a b. b = a \<or> (is_heading a \<and> b = strip_colon a))
     (nonblank lines) (nonblank (map (first_pass_line lines) [0..<length lines]))"
proof -
  define J where "J = filter (\<lambda>k. strip (lines ! k) \<noteq> []) [0..<length lines]"
  have "nonblank (map (\<lambda>k. lines ! k) [0..<length lines]) = map (\<lambda>k. lines ! k) J"
    by (simp add: filter_map comp_def J_def)
  then have a: "nonblank lines = map (\<lambda>k. lines ! k) J"
    by (simp add: map_nth)
  have "filter (\<lambda>k. strip (first_pass_line lines k) \<noteq> []) [0..<length lines] = J"
    unfolding J_def by (rule filter_cong [OF refl]) (simp add: first_pass_line_blank)
  then have b: "nonblank (map (first_pass_line lines) [0..<length lines])
      = map (first_pass_line lines) J"
    by (simp add: filter_map comp_def)
  show ?thesis
    unfolding a b
    by (simp add: list_all2_map1 list_all2_map2 list_all2_same first_pass_line_def)
qed

section \<open>Properties\<close>

subsection \<open>The examples\<close>

text \<open>
  C7. On \<^verbatim>\<open>"Para\n```\ncode\n```\nMore"\<close> the formatter returns
  \<^verbatim>\<open>"Para\n\n```\ncode\n```\n\nMore"\<close>: one blank line before the opening fence and one
  after the closing fence.
\<close>

theorem example_code_block:
  "fix_markdown_formatting ''Para\<newline>```\<newline>code\<newline>```\<newline>More''
     = ''Para\<newline>\<newline>```\<newline>code\<newline>```\<newline>\<newline>More''"
  by code_simp

text \<open>C10. The formatter maps the empty string to the empty string.\<close>

theorem empty_document: "fix_markdown_formatting '''' = ''''"
  by code_simp

text \<open>
  The other examples of the specification: a heading with a colon, a list between two
  paragraphs, three blank lines between two paragraphs.
\<close>

lemma example_heading:
  "fix_markdown_formatting ''# Title:\<newline>Some text'' = ''# Title\<newline>\<newline>Some text''"
  by code_simp

lemma example_list:
  "fix_markdown_formatting ''Para\<newline>- item1\<newline>- item2\<newline>More''
     = ''Para\<newline>\<newline>- item1\<newline>- item2\<newline>\<newline>More''"
  by code_simp

lemma example_blank_run:
  "fix_markdown_formatting ''one\<newline>\<newline>\<newline>\<newline>two'' = ''one\<newline>\<newline>two''"
  by code_simp

subsection \<open>The wrong argument count\<close>

text \<open>
  C8. When \<^verbatim>\<open>sys.argv\<close> does not hold exactly the script and one path, the process prints
  the usage line, ends with status 1, and neither reads nor writes a file: the files are
  as before and the trace grows by the one print.
\<close>

theorem main_usage:
  assumes "length argv \<noteq> 2"
  shows "main argv w =
           (Exit 1, w\<lparr>events := events w @ [Print ''Usage: python3 fix_markdown.py <file>'']\<rparr>)
         \<and> files (snd (main argv w)) = files w
         \<and> fst (main argv w) \<noteq> Exit 0"
  using assms by (simp add: main_def emit_def)

theorem main_usage_witness:
  "length [''fix_markdown.py'', ''a.md'', ''b.md''] \<noteq> 2
   \<and> main [''fix_markdown.py'', ''a.md'', ''b.md'']
         \<lparr>files = Map.empty(''a.md'' \<mapsto> ''# T:''), events = []\<rparr>
       = (Exit 1, \<lparr>files = Map.empty(''a.md'' \<mapsto> ''# T:''),
                   events = [Print ''Usage: python3 fix_markdown.py <file>'']\<rparr>)"
  using main_usage [of "[''fix_markdown.py'', ''a.md'', ''b.md'']"
      "\<lparr>files = Map.empty(''a.md'' \<mapsto> ''# T:''), events = []\<rparr>"]
  by simp

subsection \<open>Blank lines in the output\<close>

text \<open>
  C5. The output of the formatter never holds two consecutive blank lines: of two
  neighbouring lines of the output, one at least has a character that is not whitespace.
\<close>

theorem no_consecutive_blank_lines:
  "Suc k < length (split_nl (fix_markdown_formatting content)) \<Longrightarrow>
   \<not> (strip (split_nl (fix_markdown_formatting content) ! k) = [] \<and>
      strip (split_nl (fix_markdown_formatting content) ! Suc k) = [])"
  unfolding formatted_lines by (rule no_double_blank_nth [OF collapse_no_double_blank])

theorem no_consecutive_blank_lines_witness:
  "Suc 1 < length (split_nl (fix_markdown_formatting ''a\<newline>\<newline>\<newline>b''))
   \<and> \<not> (strip (split_nl (fix_markdown_formatting ''a\<newline>\<newline>\<newline>b'') ! 1) = [] \<and>
         strip (split_nl (fix_markdown_formatting ''a\<newline>\<newline>\<newline>b'') ! Suc 1) = [])"
proof -
  have h: "Suc 1 < length (split_nl (fix_markdown_formatting ''a\<newline>\<newline>\<newline>b''))"
    by code_simp
  from h no_consecutive_blank_lines [OF h] show ?thesis by blast
qed

subsection \<open>The lines that are not blank\<close>

text \<open>
  C9. The lines of the output that are not blank are the lines of the input that are not
  blank, as many and in the same order, each as the first pass leaves it
  (\<open>first_pass_line\<close>): unchanged, except that a heading line processed by the main loop
  has lost one trailing colon, if it had one. Line by line, the output line is the input
  line, or the input line is a heading and the output line is that heading without one
  trailing colon. No such line is dropped, doubled or moved.
\<close>

theorem nonblank_lines_preserved:
  "nonblank (split_nl (fix_markdown_formatting content))
     = nonblank (map (first_pass_line (split_nl content)) [0..<length (split_nl content)])
   \<and> list_all2 (\<lambda>a b. b = a \<or> (is_heading a \<and> b = strip_colon a))
        (nonblank (split_nl content)) (nonblank (split_nl (fix_markdown_formatting content)))"
proof -
  have e: "nonblank (split_nl (fix_markdown_formatting content))
      = nonblank (map (first_pass_line (split_nl content)) [0..<length (split_nl content)])"
    unfolding formatted_lines collapse_filter first_pass_eq [symmetric]
    by (rule first_pass_nonblank)
  show ?thesis
    unfolding e by (simp add: nonblank_first_pass_related)
qed

subsection \<open>Headings\<close>

text \<open>
  C3, as stated, fails: a heading line between the fences of a code block is copied with
  the block, and no blank line is put around it.
\<close>

theorem heading_in_code_block_not_isolated:
  "is_heading ''# H''
   \<and> split_nl (fix_markdown_formatting ''```\<newline>a\<newline># H\<newline>b\<newline>```'')
       = [''```'', ''a'', ''# H'', ''b'', ''```'']"
  by code_simp

text \<open>
  C3, amended. Every heading line that the main loop processes (the loop reaches its index
  \<open>i\<close> with some \<open>fixed_lines\<close>; by \<open>unvisited_heading_in_code_block\<close> these are the
  heading lines outside the code blocks) and that is neither the first nor the last line
  of the document has, in the output, exactly one blank line immediately before it and
  exactly one immediately after it: the output is \<open>X\<close>, a blank line, the heading without
  its trailing colon, a blank line, \<open>Y\<close>, where \<open>X\<close> does not end and \<open>Y\<close> does not
  start with a blank line. The lines up to the first of the two blank lines are what the
  second pass makes of the lines written before the heading.
\<close>

theorem visited_heading_isolated:
  assumes "visits (split_nl content) i fixed_lines"
    and "0 < i" and "Suc i < length (split_nl content)"
    and "is_heading (split_nl content ! i)"
  shows "\<exists>X b1 b2 Y.
     split_nl (fix_markdown_formatting content)
       = X @ [b1, strip_colon (split_nl content ! i), b2] @ Y
     \<and> strip b1 = [] \<and> strip b2 = []
     \<and> (X = [] \<or> strip (last X) \<noteq> []) \<and> (Y = [] \<or> strip (hd Y) \<noteq> [])
     \<and> X @ [b1] = remove_consecutive_empty (fixed_lines @ ['''']) [] False"
  unfolding visits_output [OF assms(1)] remove_consecutive_empty_collapse append_Nil
  by (rule heading_isolated_lines [OF assms])

theorem visited_heading_isolated_witness:
  "visits (split_nl ''a\<newline># H:\<newline>b'') 1 [''a'']
   \<and> (\<exists>X b1 b2 Y.
       split_nl (fix_markdown_formatting ''a\<newline># H:\<newline>b'')
         = X @ [b1, strip_colon (split_nl ''a\<newline># H:\<newline>b'' ! 1), b2] @ Y
       \<and> strip b1 = [] \<and> strip b2 = []
       \<and> (X = [] \<or> strip (last X) \<noteq> []) \<and> (Y = [] \<or> strip (hd Y) \<noteq> [])
       \<and> X @ [b1] = remove_consecutive_empty ([''a''] @ ['''']) [] False)
   \<and> split_nl (fix_markdown_formatting ''a\<newline># H:\<newline>b'') = [''a'', '''', ''# H'', '''', ''b'']"
proof -
  have s: "split_nl ''a\<newline># H:\<newline>b'' = [''a'', ''# H:'', ''b'']"
    by code_simp
  have b: "loop_body [''a'', ''# H:'', ''b''] 0 [] = (1, [''a''])"
    by code_simp
  have v: "visits (split_nl ''a\<newline># H:\<newline>b'') 1 [''a'']"
    unfolding s by (rule visits.step [OF visits.start _ b]) simp
  have h: "is_heading (split_nl ''a\<newline># H:\<newline>b'' ! 1)"
    unfolding s by code_simp
  have l: "Suc 1 < length (split_nl ''a\<newline># H:\<newline>b'')"
    unfolding s by simp
  have o: "split_nl (fix_markdown_formatting ''a\<newline># H:\<newline>b'') = [''a'', '''', ''# H'', '''', ''b'']"
    by code_simp
  have z: "0 < (1::nat)"
    by simp
  from v o visited_heading_isolated [OF v z l h] show ?thesis by blast
qed

subsection \<open>Code blocks\<close>

text \<open>
  C2, as stated, fails: the second pass also runs over the lines of a code block, so of
  two blank lines between the fences only one reaches the output.
\<close>

theorem blank_lines_in_code_block_collapsed:
  "split_nl ''```\<newline>\<newline>\<newline>```'' = [''```'', '''', '''', ''```'']
   \<and> split_nl (fix_markdown_formatting ''```\<newline>\<newline>\<newline>```'') = [''```'', '''', ''```'']"
  by code_simp

text \<open>
  C2, amended. Let the document be \<open>pre\<close>, an opening fence \<open>f\<close> that the main loop
  processes, the lines \<open>body\<close> none of which is a closing fence, the closing fence \<open>c\<close>,
  and \<open>post\<close>. Then the output holds \<open>f\<close>, directly followed by \<open>body\<close> as the second
  pass leaves it, directly followed by \<open>c\<close>. The lines of \<open>body\<close> that are not blank are
  all there, byte for byte and in order, whatever they look like; of every run of blank
  lines the first is there; and when no two consecutive lines of \<open>body\<close> are blank, the
  whole of \<open>body\<close> is there unchanged.
\<close>

theorem code_content_kept:
  assumes "split_nl content = pre @ [f] @ body @ [c] @ post"
    and "visits (split_nl content) (length pre) fixed_lines"
    and "is_fence f" and "\<forall>l\<in>set body. \<not> is_closing_fence l" and "is_closing_fence c"
  shows "(\<exists>Y. split_nl (fix_markdown_formatting content)
            = remove_consecutive_empty
                (if pre \<noteq> [] \<and> strip (last pre) \<noteq> '''' then fixed_lines @ [''''] else fixed_lines)
                [] False
              @ [f] @ remove_consecutive_empty body [] False @ [c] @ Y)
       \<and> nonblank (remove_consecutive_empty body [] False) = nonblank body
       \<and> ((\<forall>k. Suc k < length body \<longrightarrow> \<not> (strip (body ! k) = '''' \<and> strip (body ! Suc k) = ''''))
            \<longrightarrow> remove_consecutive_empty body [] False = body)"
proof (intro conjI impI)
  show "\<exists>Y. split_nl (fix_markdown_formatting content)
            = remove_consecutive_empty
                (if pre \<noteq> [] \<and> strip (last pre) \<noteq> '''' then fixed_lines @ [''''] else fixed_lines)
                [] False
              @ [f] @ remove_consecutive_empty body [] False @ [c] @ Y"
    unfolding visits_output [OF assms(2)] remove_consecutive_empty_collapse append_Nil
    by (rule closed_block_lines [OF assms(1,3,4,5)])
next
  show "nonblank (remove_consecutive_empty body [] False) = nonblank body"
    by (simp add: remove_consecutive_empty_collapse collapse_filter)
next
  assume "\<forall>k. Suc k < length body \<longrightarrow> \<not> (strip (body ! k) = '''' \<and> strip (body ! Suc k) = '''')"
  then have "no_double_blank body" by (intro no_double_blank_nthI) blast
  then show "remove_consecutive_empty body [] False = body"
    by (simp add: remove_consecutive_empty_collapse collapse_fixed)
qed

theorem code_content_kept_witness:
  "split_nl ''Para\<newline>```\<newline># x:\<newline>\<newline>- y\<newline>```\<newline>More''
     = [''Para''] @ [''```''] @ [''# x:'', '''', ''- y''] @ [''```''] @ [''More'']
   \<and> visits (split_nl ''Para\<newline>```\<newline># x:\<newline>\<newline>- y\<newline>```\<newline>More'') (length [''Para'']) [''Para'']
   \<and> is_fence ''```'' \<and> is_closing_fence ''```''
   \<and> (\<exists>Y. split_nl (fix_markdown_formatting ''Para\<newline>```\<newline># x:\<newline>\<newline>- y\<newline>```\<newline>More'')
            = [''Para'', ''''] @ [''```''] @ [''# x:'', '''', ''- y''] @ [''```''] @ Y)"
proof -
  let ?content = "''Para\<newline>```\<newline># x:\<newline>\<newline>- y\<newline>```\<newline>More''"
  have s: "split_nl ?content = [''Para''] @ [''```''] @ [''# x:'', '''', ''- y''] @ [''```''] @ [''More'']"
    by code_simp
  have b: "loop_body (split_nl ?content) 0 [] = (length [''Para''], [''Para''])"
    by code_simp
  have v: "visits (split_nl ?content) (length [''Para'']) [''Para'']"
    by (rule visits.step [OF visits.start _ b]) (simp add: s)
  have f: "is_fence ''```''" and c: "is_closing_fence ''```''"
    by code_simp+
  have n: "\<forall>l\<in>set [''# x:'', '''', ''- y'']. \<not> is_closing_fence l"
    by (simp add: is_closing_fence_def)
  have r: "remove_consecutive_empty [''Para'', ''''] [] False = [''Para'', '''']"
    "remove_consecutive_empty [''# x:'', '''', ''- y''] [] False = [''# x:'', '''', ''- y'']"
    by code_simp+
  have p: "strip (last [''Para'']) \<noteq> ''''"
    by code_simp
  from code_content_kept [OF s v f n c] s v f c r p show ?thesis
    by simp
qed

text \<open>
  C6, as stated, fails for the same reason: the lines after a fence that is never closed
  are copied by the first pass, but the second pass drops a blank line that follows a
  blank line among them.
\<close>

theorem blank_lines_after_open_fence_collapsed:
  "fix_markdown_formatting ''```\<newline>\<newline>\<newline># x:'' = ''```\<newline>\<newline># x:''"
  by code_simp

text \<open>
  C6, amended. Let the document be \<open>pre\<close>, an opening fence \<open>f\<close> that the main loop
  processes, and the lines \<open>rest\<close>, none of which is a closing fence. Then the first pass
  ends with \<open>f\<close> and \<open>rest\<close>, copied as they are: no line of \<open>rest\<close> is treated as a
  heading or as a list, none is changed and no line is put between them. The output ends
  with \<open>f\<close> and with what the second pass leaves of \<open>rest\<close>, that is \<open>rest\<close> without the
  blank lines that follow a blank line.
\<close>

theorem unterminated_block_copied:
  assumes "split_nl content = pre @ [f] @ rest"
    and "visits (split_nl content) (length pre) fixed_lines"
    and "is_fence f" and "\<forall>l\<in>set rest. \<not> is_closing_fence l"
  shows "main_loop (split_nl content) 0 []
           = (if pre \<noteq> [] \<and> strip (last pre) \<noteq> '''' then fixed_lines @ [''''] else fixed_lines)
             @ [f] @ rest
       \<and> split_nl (fix_markdown_formatting content)
           = remove_consecutive_empty
               (if pre \<noteq> [] \<and> strip (last pre) \<noteq> '''' then fixed_lines @ [''''] else fixed_lines)
               [] False
             @ [f] @ remove_consecutive_empty rest [] False"
proof -
  let ?A = "if pre \<noteq> [] \<and> strip (last pre) \<noteq> '''' then fixed_lines @ [''''] else fixed_lines"
  have m: "main_loop (split_nl content) 0 [] = ?A @ [f] @ rest"
    unfolding visits_pass_one [OF assms(2)] by (rule open_block_lines [OF assms(1,3,4)])
  have "split_nl (fix_markdown_formatting content) = collapse False (?A @ f # rest)"
    unfolding formatted_lines first_pass_eq [symmetric] m by simp
  also have "\<dots> = collapse False ?A @ f # collapse False rest"
    by (rule collapse_snoc_nonblank [OF fence_nonblank [OF assms(3)]])
  finally show ?thesis
    using m by (simp add: remove_consecutive_empty_collapse)
qed

theorem unterminated_block_copied_witness:
  "split_nl ''t\<newline>```\<newline># H:\<newline>- a\<newline>x'' = [''t''] @ [''```''] @ [''# H:'', ''- a'', ''x'']
   \<and> visits (split_nl ''t\<newline>```\<newline># H:\<newline>- a\<newline>x'') (length [''t'']) [''t'']
   \<and> is_fence ''```''
   \<and> main_loop (split_nl ''t\<newline>```\<newline># H:\<newline>- a\<newline>x'') 0 []
       = [''t'', ''''] @ [''```''] @ [''# H:'', ''- a'', ''x'']
   \<and> split_nl (fix_markdown_formatting ''t\<newline>```\<newline># H:\<newline>- a\<newline>x'')
       = [''t'', ''''] @ [''```''] @ [''# H:'', ''- a'', ''x'']"
proof -
  let ?content = "''t\<newline>```\<newline># H:\<newline>- a\<newline>x''"
  have s: "split_nl ?content = [''t''] @ [''```''] @ [''# H:'', ''- a'', ''x'']"
    by code_simp
  have b: "loop_body (split_nl ?content) 0 [] = (length [''t''], [''t''])"
    by code_simp
  have v: "visits (split_nl ?content) (length [''t'']) [''t'']"
    by (rule visits.step [OF visits.start _ b]) (simp add: s)
  have f: "is_fence ''```''"
    by code_simp
  have n: "\<forall>l\<in>set [''# H:'', ''- a'', ''x'']. \<not> is_closing_fence l"
    by (simp add: is_closing_fence_def)
  have r: "remove_consecutive_empty [''t'', ''''] [] False = [''t'', '''']"
    "remove_consecutive_empty [''# H:'', ''- a'', ''x''] [] False = [''# H:'', ''- a'', ''x'']"
    by code_simp+
  have p: "strip (last [''t'']) \<noteq> ''''"
    by code_simp
  from unterminated_block_copied [OF s v f n] s v f r p show ?thesis
    by simp
qed

subsection \<open>Trailing colons\<close>

text \<open>
  C4, as stated, fails: a heading line between the fences of a code block keeps its
  trailing colon.
\<close>

theorem heading_in_code_block_keeps_colon:
  "is_heading ''# H:''
   \<and> fix_markdown_formatting ''```\<newline># H:\<newline>```'' = ''```\<newline># H:\<newline>```''"
  by code_simp

text \<open>
  C4, amended. A line that ends in a colon is not blank, so it has its place among the
  lines of the output that are not blank: the place it has among those of the input. If
  the line is a heading that the main loop processes, the output has there the line
  without exactly that last colon and otherwise as it was (a second colon before it
  stays); if the line is not a heading, or is copied with a code block, the output has it
  there unchanged.
\<close>

theorem trailing_colon:
  assumes "i < length (split_nl content)" and "split_nl content ! i = s @ '':''"
  shows "nonblank (split_nl (fix_markdown_formatting content))
           ! length (nonblank (take i (split_nl content)))
       = (if visited (split_nl content) i \<and> is_heading (split_nl content ! i)
          then s else s @ '':'')"
  using assms by (rule colon_line_image)

theorem trailing_colon_witness:
  "1 < length (split_nl ''note:\<newline># T::'')
   \<and> split_nl ''note:\<newline># T::'' ! 1 = ''# T:'' @ '':''
   \<and> nonblank (split_nl (fix_markdown_formatting ''note:\<newline># T::''))
        ! length (nonblank (take 1 (split_nl ''note:\<newline># T::''))) = ''# T:''"
proof -
  let ?content = "''note:\<newline># T::''"
  have s: "split_nl ?content = [''note:'', ''# T::'']"
    by code_simp
  have b: "loop_body [''note:'', ''# T::''] 0 [] = (1, [''note:''])"
    by code_simp
  have "visits (split_nl ?content) 1 [''note:'']"
    unfolding s by (rule visits.step [OF visits.start _ b]) simp
  then have v: "visited (split_nl ?content) 1"
    unfolding visited_def by blast
  have h: "is_heading (split_nl ?content ! 1)"
    unfolding s by code_simp
  have l: "1 < length (split_nl ?content)" and e: "split_nl ?content ! 1 = ''# T:'' @ '':''"
    unfolding s by simp_all
  from trailing_colon [OF l e] v h l e show ?thesis
    by simp
qed

subsection \<open>Applying the formatter twice\<close>

text \<open>
  C1, as stated, fails, in two ways. The first pass removes one colon from a heading, so
  a heading that ends in two colons loses the second one only in the second run. And a
  whitespace-only line that starts with two spaces continues a list: in
  \<^verbatim>\<open>"- a\n  \n\n  b\nt"\<close> the empty line ends the list, the first run drops it as the second
  blank line of its run, and in the second run the list reaches \<^verbatim>\<open>"  b"\<close> and gets a
  blank line after it.
\<close>

theorem formatter_not_idempotent:
  "fix_markdown_formatting (fix_markdown_formatting ''# Title::'')
     \<noteq> fix_markdown_formatting ''# Title::''
   \<and> fix_markdown_formatting (fix_markdown_formatting ''- a\<newline>  \<newline>\<newline>  b\<newline>t'')
     \<noteq> fix_markdown_formatting ''- a\<newline>  \<newline>\<newline>  b\<newline>t''"
  by code_simp

text \<open>
  C1, amended. Formatting the formatted document gives the formatted document if and only
  if the document has neither of these two defects, which are the ones above and which
  the scan \<^const>\<open>settles\<close> looks for. Both are about lines outside code blocks.

  \<^item> A heading line ends in two colons.
  \<^item> A list, that is a list item with the lines after it that start with \<^verbatim>\<open>"- "\<close> or with
    two spaces, has a whitespace-only last line and is followed by a blank line; after
    that come one or more lines that are blank or start with two spaces, where each of
    them that is not blank is followed by a line that starts with two spaces, except the
    last one; and the last one is followed directly by a line that is not blank and is
    neither a heading, a fence, a list item nor a line that starts with two spaces.

  So the formatter is idempotent on every other document, also on one with a
  whitespace-only line in a list or with two colons at the end of a line of a code block.
\<close>

theorem formatter_idempotent_iff:
  "fix_markdown_formatting (fix_markdown_formatting content) = fix_markdown_formatting content
   \<longleftrightarrow> settles Aligned (split_nl content)"
  by (rule formatter_settles)

theorem formatter_idempotent_iff_witness:
  "settles Aligned (split_nl ''- a\<newline>  \<newline>\<newline>  b\<newline>  \<newline>t\<newline>```\<newline># U::\<newline>```'')
   \<and> fix_markdown_formatting
        (fix_markdown_formatting ''- a\<newline>  \<newline>\<newline>  b\<newline>  \<newline>t\<newline>```\<newline># U::\<newline>```'')
     = fix_markdown_formatting ''- a\<newline>  \<newline>\<newline>  b\<newline>  \<newline>t\<newline>```\<newline># U::\<newline>```''
   \<and> \<not> settles Aligned (split_nl ''- a\<newline>  \<newline>\<newline>  b\<newline>  c\<newline>t'')
   \<and> fix_markdown_formatting (fix_markdown_formatting ''- a\<newline>  \<newline>\<newline>  b\<newline>  c\<newline>t'')
     \<noteq> fix_markdown_formatting ''- a\<newline>  \<newline>\<newline>  b\<newline>  c\<newline>t''"
proof -
  have a: "settles Aligned (split_nl ''- a\<newline>  \<newline>\<newline>  b\<newline>  \<newline>t\<newline>```\<newline># U::\<newline>```'')"
    by code_simp
  have b: "\<not> settles Aligned (split_nl ''- a\<newline>  \<newline>\<newline>  b\<newline>  c\<newline>t'')"
    by code_simp
  from a b
    formatter_idempotent_iff [of "''- a\<newline>  \<newline>\<newline>  b\<newline>  \<newline>t\<newline>```\<newline># U::\<newline>```''"]
    formatter_idempotent_iff [of "''- a\<newline>  \<newline>\<newline>  b\<newline>  c\<newline>t''"]
  show ?thesis by blast
qed

end
